theory Spec2Isabelle
  imports Main "HOL-Library.Word" "HOL-Library.Monad_Syntax" "HOL-Library.Multiset"
begin

section \<open>Data model (rbt.h)\<close>

text \<open>
  The two-bit field \<open>color\<close> of \<open>struct RBT\<close> holds \<open>BLACK\<close> (0), \<open>RED\<close> (1) or,
  during a removal, \<open>DOUBLE_BLACK\<close> (2). No statement of the source writes any other value.
\<close>

datatype color = BLACK | RED | DOUBLE_BLACK

text \<open>
  A value of type \<open>rbt\<close> is what an \<open>RBT\<close> pointer of the source leads to:
  \<open>BLACK_LEAF\<close> is the null pointer, \<open>DOUBLE_BLACK_PTR\<close> the pointer \<open>(void *)1\<close>, and
  \<open>Node a l r n c p u k\<close> a pointer to the struct at address \<open>a\<close> with the fields
  \<open>left\<close>, \<open>right\<close>, \<open>next\<close>, \<open>capacity\<close> (30 bits), \<open>prev_dist\<close> (30 bits), \<open>in_use\<close>
  (1 bit) and \<open>color\<close>. The datatype stands for heaps in which every struct is the target of
  one pointer only, so that pointer equality is equality of addresses; the operations keep
  heaps that way as long as \<open>RBT_add\<close> is given storage that is not already in the tree.
  A function that reads or writes a field through \<open>BLACK_LEAF\<close> or \<open>DOUBLE_BLACK_PTR\<close>
  returns \<open>None\<close>: the source has undefined behaviour there.
\<close>

datatype rbt =
    BLACK_LEAF
  | DOUBLE_BLACK_PTR
  | Node (addr: nat) (left: rbt) (right: rbt) (nxt: rbt)
         (capacity: "30 word") (prev_dist: "30 word") (in_use: bool) (color: color)

text \<open>Assignments to one field of a struct, used below on pointers known to be nodes.\<close>

fun set_left :: "rbt \<Rightarrow> rbt \<Rightarrow> rbt" where
  "set_left v (Node a l r n c p u k) = Node a v r n c p u k"
| "set_left v t = t"

fun set_right :: "rbt \<Rightarrow> rbt \<Rightarrow> rbt" where
  "set_right v (Node a l r n c p u k) = Node a l v n c p u k"
| "set_right v t = t"

fun set_next :: "rbt \<Rightarrow> rbt \<Rightarrow> rbt" where
  "set_next v (Node a l r n c p u k) = Node a l r v c p u k"
| "set_next v t = t"

fun set_color :: "color \<Rightarrow> rbt \<Rightarrow> rbt" where
  "set_color v (Node a l r n c p u k) = Node a l r n c p u v"
| "set_color v t = t"

text \<open>The test \<open>p != BLACK_LEAF && p->color == RED\<close>.\<close>

fun red :: "rbt \<Rightarrow> bool option" where
  "red BLACK_LEAF = Some False"
| "red DOUBLE_BLACK_PTR = None"
| "red (Node a l r n c p u k) = Some (k = RED)"

section \<open>Tree height\<close>

fun RBT_height :: "rbt \<Rightarrow> int option" where
  "RBT_height BLACK_LEAF = Some 0"
| "RBT_height DOUBLE_BLACK_PTR = None"
| "RBT_height (Node a l r n c p u k) =
     (if l = BLACK_LEAF \<and> r = BLACK_LEAF then Some 0
      else do {
        hl \<leftarrow> RBT_height l;
        hr \<leftarrow> RBT_height r;
        let left_height = 1 + hl;
        let right_height = 1 + hr;
        Some (if left_height > right_height then left_height else right_height)
      })"

fun RBT_black_height :: "rbt \<Rightarrow> int option" where
  "RBT_black_height BLACK_LEAF = Some 0"
| "RBT_black_height DOUBLE_BLACK_PTR = None"
| "RBT_black_height (Node a l r n c p u k) =
     (case l of
        BLACK_LEAF \<Rightarrow> Some 1
      | DOUBLE_BLACK_PTR \<Rightarrow> None
      | Node _ _ _ _ _ _ _ lk \<Rightarrow>
          if lk = BLACK then map_option (\<lambda>h. 1 + h) (RBT_black_height l)
          else RBT_black_height l)"

section \<open>The representation check\<close>

text \<open>
  The checkers return normally or end the process (\<open>raise(SIGABRT)\<close>, or an access through
  an invalid pointer). They are modelled as predicates: \<open>True\<close> when the call returns.
\<close>

fun RBT_double_blackness_ok :: "rbt \<Rightarrow> bool" where
  "RBT_double_blackness_ok BLACK_LEAF = True"
| "RBT_double_blackness_ok DOUBLE_BLACK_PTR = False"
| "RBT_double_blackness_ok (Node a l r n c p u k) =
     (k \<noteq> DOUBLE_BLACK \<and> RBT_double_blackness_ok l \<and> RBT_double_blackness_ok r)"

text \<open>The test \<open>p == BLACK_LEAF || p->color == BLACK\<close>; \<open>None\<close> for the invalid pointer.\<close>

fun black :: "rbt \<Rightarrow> bool option" where
  "black BLACK_LEAF = Some True"
| "black DOUBLE_BLACK_PTR = None"
| "black (Node a l r n c p u k) = Some (k = BLACK)"

fun RBT_red_red_ok :: "rbt \<Rightarrow> bool" where
  "RBT_red_red_ok BLACK_LEAF = True"
| "RBT_red_red_ok DOUBLE_BLACK_PTR = False"
| "RBT_red_red_ok (Node a l r n c p u k) =
     ((k = RED \<longrightarrow> black l = Some True \<and> black r = Some True)
      \<and> RBT_red_red_ok l \<and> RBT_red_red_ok r)"

fun RBT_black_height_ok :: "rbt \<Rightarrow> bool" where
  "RBT_black_height_ok BLACK_LEAF = True"
| "RBT_black_height_ok DOUBLE_BLACK_PTR = False"
| "RBT_black_height_ok (Node a l r n c p u k) =
     (case (RBT_black_height l, RBT_black_height r, black l, black r) of
        (Some left_height, Some right_height, Some bl, Some br) \<Rightarrow>
          (if bl then left_height + 1 else left_height)
            = (if br then right_height + 1 else right_height)
          \<and> RBT_black_height_ok l \<and> RBT_black_height_ok r
      | _ \<Rightarrow> False)"

definition RBT_rep_ok :: "rbt \<Rightarrow> bool" where
  "RBT_rep_ok root =
     (case root of
        BLACK_LEAF \<Rightarrow> True
      | DOUBLE_BLACK_PTR \<Rightarrow> False
      | Node _ _ _ _ _ _ _ k \<Rightarrow>
          k \<noteq> DOUBLE_BLACK \<and> k = BLACK
          \<and> RBT_double_blackness_ok root \<and> RBT_red_red_ok root \<and> RBT_black_height_ok root)"

section \<open>Insertion\<close>

text \<open>Case 1 of \<open>RBT_eliminate_red_red\<close> (RED uncle): both children BLACK, the root RED.\<close>

definition recolor :: "rbt \<Rightarrow> rbt" where
  "recolor root =
     set_color RED (set_left (set_color BLACK (left root))
                      (set_right (set_color BLACK (right root)) root))"

text \<open>
  The block under \<open>if (left != BLACK_LEAF && left->color == RED)\<close>. The inner option is
  \<open>None\<close> when the block falls through to the test of the right child.
\<close>

definition red_red_left :: "rbt \<Rightarrow> rbt option option" where
  "red_red_left root =
     (let l = left root; r = right root in do {
        left_left_red \<leftarrow> red (left l);
        if left_left_red then do {
          right_red \<leftarrow> red r;
          if right_red then Some (Some (recolor root))
          else Some (Some (set_color BLACK (set_right (set_color RED (set_left (right l) root)) l)))
        } else do {
          left_right_red \<leftarrow> red (right l);
          if left_right_red then do {
            right_red \<leftarrow> red r;
            if right_red then Some (Some (recolor root))
            else
              (let left_right = right l in
               Some (Some (set_color BLACK
                 (set_left (set_right (left left_right) l)
                   (set_right (set_color RED (set_left (right left_right) root)) left_right)))))
          } else Some None
        }
      })"

definition red_red_right :: "rbt \<Rightarrow> rbt option option" where
  "red_red_right root =
     (let l = left root; r = right root in do {
        right_left_red \<leftarrow> red (left r);
        if right_left_red then do {
          left_red \<leftarrow> red l;
          if left_red then Some (Some (recolor root))
          else
            (let right_left = left r in
             Some (Some (set_color BLACK
               (set_right (set_left (right right_left) r)
                 (set_left (set_color RED (set_right (left right_left) root)) right_left)))))
        } else do {
          right_right_red \<leftarrow> red (right r);
          if right_right_red then do {
            left_red \<leftarrow> red l;
            if left_red then Some (Some (recolor root))
            else Some (Some (set_color BLACK (set_left (set_color RED (set_right (left r) root)) r)))
          } else Some None
        }
      })"

definition RBT_eliminate_red_red :: "rbt \<Rightarrow> rbt option" where
  "RBT_eliminate_red_red root =
     (case root of
        Node _ l r _ _ _ _ _ \<Rightarrow> do {
          left_red \<leftarrow> red l;
          in_left \<leftarrow> (if left_red then red_red_left root else Some None);
          case in_left of
            Some t \<Rightarrow> Some t
          | None \<Rightarrow> do {
              right_red \<leftarrow> red r;
              in_right \<leftarrow> (if right_red then red_red_right root else Some None);
              case in_right of
                Some t \<Rightarrow> Some t
              | None \<Rightarrow> Some root
            }
        }
      | _ \<Rightarrow> None)"

fun RBT_add_inner :: "rbt \<Rightarrow> nat \<Rightarrow> 32 word \<Rightarrow> rbt option" where
  "RBT_add_inner BLACK_LEAF node cap =
     Some (Node node BLACK_LEAF BLACK_LEAF BLACK_LEAF (ucast cap) 0 False BLACK)"
| "RBT_add_inner DOUBLE_BLACK_PTR node cap = None"
| "RBT_add_inner (Node a l r n c p u k) node cap =
     (if cap = ucast c then do {
        nd \<leftarrow> RBT_add_inner BLACK_LEAF node cap;
        Some (Node a l r (set_next n nd) c p u k)
      } else if cap < ucast c then do {
        new_left \<leftarrow> RBT_add_inner l node cap;
        RBT_eliminate_red_red
          (Node a (if l = BLACK_LEAF then set_color RED new_left else new_left) r n c p u k)
      } else do {
        new_right \<leftarrow> RBT_add_inner r node cap;
        RBT_eliminate_red_red
          (Node a l (if r = BLACK_LEAF then set_color RED new_right else new_right) n c p u k)
      })"

text \<open>The argument \<open>node\<close> is \<open>None\<close> for a null pointer, else the address of the storage.\<close>

definition RBT_add :: "rbt \<Rightarrow> nat option \<Rightarrow> 32 word \<Rightarrow> rbt option" where
  "RBT_add root node cap =
     (case node of
        None \<Rightarrow> Some root
      | Some nd \<Rightarrow> do {
          new_tree \<leftarrow> RBT_add_inner root nd cap;
          case new_tree of
            Node _ _ _ _ _ _ _ _ \<Rightarrow> Some (set_color BLACK new_tree)
          | _ \<Rightarrow> None
        })"

definition RBT_new :: "nat option \<Rightarrow> 32 word \<Rightarrow> rbt option" where
  "RBT_new root cap = RBT_add BLACK_LEAF root cap"

section \<open>Removal\<close>

text \<open>The test \<open>p == DOUBLE_BLACK_PTR || (p != BLACK_LEAF && p->color == DOUBLE_BLACK)\<close>.\<close>

fun double_black :: "rbt \<Rightarrow> bool" where
  "double_black DOUBLE_BLACK_PTR = True"
| "double_black BLACK_LEAF = False"
| "double_black (Node a l r n c p u k) = (k = DOUBLE_BLACK)"

text \<open>
  ``Blacken the doubly-black node'': the child \<open>ch\<close> of \<open>root\<close> on the given side is the
  sentinel (the pointer is reset to \<open>BLACK_LEAF\<close>) or a node (it is coloured \<open>BLACK\<close>).
\<close>

definition unmark :: "rbt \<Rightarrow> rbt" where
  "unmark ch = (if ch = DOUBLE_BLACK_PTR then BLACK_LEAF else set_color BLACK ch)"

text \<open>Case B: the root takes the extra black, or absorbs it when it is RED.\<close>

definition push_up :: "color \<Rightarrow> color" where
  "push_up k = (if k = BLACK then DOUBLE_BLACK else BLACK)"

function RBT_propagate_double_blackness :: "rbt \<Rightarrow> rbt option" where
  "RBT_propagate_double_blackness root =
     (case root of
        BLACK_LEAF \<Rightarrow> Some root
      | DOUBLE_BLACK_PTR \<Rightarrow> Some root
      | Node _ l r _ _ _ _ k \<Rightarrow>
          if double_black l then
            (case r of
               Node _ right_left right_right _ _ _ _ rk \<Rightarrow>
                 if rk = RED then do {
                   t \<leftarrow> RBT_propagate_double_blackness (set_color RED (set_right right_left root));
                   Some (set_left t (set_color BLACK r))
                 } else
                   (let root1 = set_left (unmark l) root in do {
                      right_left_red \<leftarrow> red right_left;
                      if right_left_red then
                        Some (set_color k
                          (set_left (set_color BLACK (set_right (left right_left) root1))
                            (set_right (set_left (right right_left) r) right_left)))
                      else do {
                        right_right_red \<leftarrow> red right_right;
                        if right_right_red then
                          Some (set_color k
                            (set_left (set_color BLACK (set_right right_left root1))
                              (set_right (set_color BLACK right_right) r)))
                        else
                          Some (set_right (set_color RED r) (set_color (push_up k) root1))
                      }
                    })
             | _ \<Rightarrow> None)
          else if double_black r then
            (case l of
               Node _ left_left left_right _ _ _ _ lk \<Rightarrow>
                 if lk = RED then do {
                   t \<leftarrow> RBT_propagate_double_blackness (set_color RED (set_left left_right root));
                   Some (set_right t (set_color BLACK l))
                 } else
                   (let root1 = set_right (unmark r) root in do {
                      left_right_red \<leftarrow> red left_right;
                      if left_right_red then
                        Some (set_color k
                          (set_right (set_color BLACK (set_left (right left_right) root1))
                            (set_left (set_right (left left_right) l) left_right)))
                      else do {
                        left_left_red \<leftarrow> red left_left;
                        if left_left_red then
                          Some (set_color k
                            (set_right (set_color BLACK (set_left left_right root1))
                              (set_left (set_color BLACK left_left) l)))
                        else
                          Some (set_left (set_color RED l) (set_color (push_up k) root1))
                      }
                    })
             | _ \<Rightarrow> None)
          else Some root)"
  by pat_completeness auto
termination
  by (relation "measure size") auto

declare RBT_propagate_double_blackness.simps [simp del]

text \<open>
  \<open>prevswap\<close> is the address of a node on the left spine of \<open>current\<close>. A spine that ends
  before reaching it makes the source read \<open>current->left\<close> through a null pointer.
\<close>

fun RBT_propagate_double_blackness_prevswap :: "nat \<Rightarrow> rbt \<Rightarrow> rbt option" where
  "RBT_propagate_double_blackness_prevswap prevswap (Node a l r n c p u k) =
     (if a = prevswap then RBT_propagate_double_blackness (Node a l r n c p u k)
      else do {
        new_left \<leftarrow> RBT_propagate_double_blackness_prevswap prevswap l;
        RBT_propagate_double_blackness (Node a new_left r n c p u k)
      })"
| "RBT_propagate_double_blackness_prevswap prevswap t = None"

text \<open>
  ``Blacken'' the child that takes the place of a removed BLACK node: a null child becomes
  the sentinel, a RED child BLACK, a BLACK child DOUBLE_BLACK.
\<close>

fun blacken :: "rbt \<Rightarrow> rbt option" where
  "blacken BLACK_LEAF = Some DOUBLE_BLACK_PTR"
| "blacken DOUBLE_BLACK_PTR = None"
| "blacken (Node a l r n c p u k) =
     Some (Node a l r n c p u (if k = RED then BLACK else DOUBLE_BLACK))"

text \<open>
  The loop \<open>while (swap->left != NULL) { prevswap = swap; swap = swap->left; }\<close> of
  \<open>RBT_remove_empty_root\<close>, entered with \<open>swap = prevswap->left\<close> not null, followed by the
  assignments to \<open>prevswap->left\<close>. The argument is the node \<open>prevswap\<close> points to. The result
  is the node \<open>swap\<close>, the address of the final \<open>prevswap\<close>, and the subtree of the argument
  after \<open>prevswap->left = swap->right\<close> and the blackening of that child when \<open>swap\<close> is BLACK.
\<close>

fun find_swap :: "rbt \<Rightarrow> (rbt \<times> nat \<times> rbt) option" where
  "find_swap (Node a l r n c p u k) =
     (case l of
        Node sa sl sr sn sc sp su sk \<Rightarrow>
          if sl \<noteq> BLACK_LEAF then do {
            (swap, prevswap, new_left) \<leftarrow> find_swap l;
            Some (swap, prevswap, Node a new_left r n c p u k)
          } else do {
            prv_left \<leftarrow> (if sk = BLACK then blacken sr else Some sr);
            Some (l, a, Node a prv_left r n c p u k)
          }
      | _ \<Rightarrow> None)"
| "find_swap t = None"

text \<open>The result is the new root and the pointer stored in \<open>*removed\<close>.\<close>

definition RBT_remove_empty_root :: "rbt \<Rightarrow> (rbt \<times> rbt) option" where
  "RBT_remove_empty_root root =
     (case root of
        Node _ l r _ _ _ _ k \<Rightarrow>
          if l = BLACK_LEAF then
            (if r = BLACK_LEAF then
               (if k = RED then Some (BLACK_LEAF, root) else Some (DOUBLE_BLACK_PTR, root))
             else
               (case r of
                  Node _ _ _ _ _ _ _ rk \<Rightarrow>
                    Some (set_color (if rk = RED then BLACK else DOUBLE_BLACK) r,
                          set_right BLACK_LEAF root)
                | _ \<Rightarrow> None))
          else if r = BLACK_LEAF then
            (case l of
               Node _ _ _ _ _ _ _ lk \<Rightarrow>
                 Some (set_color (if lk = RED then BLACK else DOUBLE_BLACK) l,
                       set_left BLACK_LEAF root)
             | _ \<Rightarrow> None)
          else
            (let detached = set_right BLACK_LEAF (set_left BLACK_LEAF root) in
             case l of
               Node _ left_left left_right _ _ _ _ lk \<Rightarrow>
                 if left_left = BLACK_LEAF \<and> left_right = BLACK_LEAF then do {
                   t \<leftarrow> RBT_propagate_double_blackness
                          (set_color k
                            (set_left (if lk = BLACK then DOUBLE_BLACK_PTR else left_left)
                              (set_right r l)));
                   Some (t, detached)
                 } else
                   (case r of
                      Node _ swap prv_right _ _ _ _ rk \<Rightarrow>
                        if swap = BLACK_LEAF then do {
                          new_right \<leftarrow> (if rk = BLACK then blacken prv_right else Some prv_right);
                          t \<leftarrow> RBT_propagate_double_blackness
                                 (set_color k (set_right new_right (set_left l r)));
                          Some (t, detached)
                        } else do {
                          (swap, prevswap, new_right) \<leftarrow> find_swap r;
                          fixed_right \<leftarrow> RBT_propagate_double_blackness_prevswap prevswap new_right;
                          t \<leftarrow> RBT_propagate_double_blackness
                                 (set_color k (set_right fixed_right (set_left l swap)));
                          Some (t, detached)
                        }
                    | _ \<Rightarrow> None)
             | _ \<Rightarrow> None)
      | _ \<Rightarrow> None)"

definition RBT_remove_root :: "rbt \<Rightarrow> (rbt \<times> rbt) option" where
  "RBT_remove_root root =
     (case nxt root of
        BLACK_LEAF \<Rightarrow> RBT_remove_empty_root root
      | DOUBLE_BLACK_PTR \<Rightarrow> None
      | Node ta tlf trt tn tc tp tu tk \<Rightarrow>
          Some (set_next tn root, Node ta tlf trt BLACK_LEAF tc tp tu tk))"

text \<open>
  When the search of the left subtree stores a null pointer in \<open>*removed\<close> it has not
  written to the tree (lemma \<open>remove_at_least_inner_content\<close> below), so the root is then
  removed from the tree as it was.
\<close>

fun RBT_remove_at_least_inner :: "rbt \<Rightarrow> 32 word \<Rightarrow> (rbt \<times> rbt) option" where
  "RBT_remove_at_least_inner BLACK_LEAF cap = Some (BLACK_LEAF, BLACK_LEAF)"
| "RBT_remove_at_least_inner DOUBLE_BLACK_PTR cap = None"
| "RBT_remove_at_least_inner (Node a l r n c p u k) cap =
     (if cap = ucast c then RBT_remove_root (Node a l r n c p u k)
      else if cap < ucast c then do {
        (newleft, removed) \<leftarrow> RBT_remove_at_least_inner l cap;
        if removed = BLACK_LEAF then RBT_remove_root (Node a l r n c p u k)
        else do {
          t \<leftarrow> RBT_propagate_double_blackness (Node a newleft r n c p u k);
          Some (t, removed)
        }
      } else do {
        (newright, removed) \<leftarrow> RBT_remove_at_least_inner r cap;
        if removed = BLACK_LEAF then Some (Node a l r n c p u k, removed)
        else do {
          t \<leftarrow> RBT_propagate_double_blackness (Node a l newright n c p u k);
          Some (t, removed)
        }
      })"

text \<open>The last step of both removals: a doubly-black root is unblackened.\<close>

definition finish_root :: "rbt \<Rightarrow> rbt" where
  "finish_root newroot =
     (if newroot = DOUBLE_BLACK_PTR then BLACK_LEAF
      else if newroot \<noteq> BLACK_LEAF then set_color BLACK newroot
      else newroot)"

text \<open>
  The out-parameter \<open>removed\<close> is \<open>None\<close> for a null pointer, else \<open>Some\<close> of the pointer
  stored in \<open>*removed\<close>. The result is the returned root and the out-parameter afterwards.
\<close>

definition RBT_remove_at_least :: "rbt \<Rightarrow> 32 word \<Rightarrow> rbt option \<Rightarrow> (rbt \<times> rbt option) option" where
  "RBT_remove_at_least root cap removed =
     (case removed of
        None \<Rightarrow> Some (root, None)
      | Some _ \<Rightarrow> do {
          (newroot, rem) \<leftarrow> RBT_remove_at_least_inner root cap;
          Some (finish_root newroot, Some rem)
        })"

text \<open>
  The loop of \<open>RBT_remove_node_root\<close> over the list \<open>root->next\<close>: the argument is
  \<open>prev_target->next\<close>, the result its new value and the pointer stored in \<open>*removed\<close>.
\<close>

fun remove_from_list :: "rbt \<Rightarrow> nat \<Rightarrow> (rbt \<times> rbt) option" where
  "remove_from_list BLACK_LEAF node = Some (BLACK_LEAF, BLACK_LEAF)"
| "remove_from_list DOUBLE_BLACK_PTR node = None"
| "remove_from_list (Node a l r n c p u k) node =
     (if node = a then Some (n, Node a l r BLACK_LEAF c p u k)
      else do {
        (rest, removed) \<leftarrow> remove_from_list n node;
        Some (Node a l r rest c p u k, removed)
      })"

definition RBT_remove_node_root :: "rbt \<Rightarrow> nat \<Rightarrow> (rbt \<times> rbt) option" where
  "RBT_remove_node_root root node =
     (case root of
        Node a l r n c p u k \<Rightarrow>
          if node \<noteq> a then do {
            (new_next, removed) \<leftarrow> remove_from_list n node;
            Some (Node a l r new_next c p u k, removed)
          } else
            (case n of
               BLACK_LEAF \<Rightarrow> RBT_remove_empty_root root
             | DOUBLE_BLACK_PTR \<Rightarrow> None
             | Node _ _ _ _ _ _ _ _ \<Rightarrow>
                 Some (set_color k (set_right r (set_left l n)),
                       Node a BLACK_LEAF BLACK_LEAF BLACK_LEAF c p u k))
      | _ \<Rightarrow> None)"

fun RBT_remove_node_inner :: "rbt \<Rightarrow> nat \<Rightarrow> 32 word \<Rightarrow> (rbt \<times> rbt) option" where
  "RBT_remove_node_inner BLACK_LEAF node cap = Some (BLACK_LEAF, BLACK_LEAF)"
| "RBT_remove_node_inner DOUBLE_BLACK_PTR node cap = None"
| "RBT_remove_node_inner (Node a l r n c p u k) node cap =
     (if cap = ucast c then RBT_remove_node_root (Node a l r n c p u k) node
      else if cap < ucast c then do {
        (new_left, removed) \<leftarrow> RBT_remove_node_inner l node cap;
        t \<leftarrow> RBT_propagate_double_blackness (Node a new_left r n c p u k);
        Some (t, removed)
      } else do {
        (new_right, removed) \<leftarrow> RBT_remove_node_inner r node cap;
        t \<leftarrow> RBT_propagate_double_blackness (Node a l new_right n c p u k);
        Some (t, removed)
      })"

text \<open>
  The argument \<open>node\<close> is \<open>None\<close> for a null pointer, else the address of the node and the
  value read from \<open>node->capacity\<close>.
\<close>

definition RBT_remove_node ::
    "rbt \<Rightarrow> (nat \<times> 30 word) option \<Rightarrow> rbt option \<Rightarrow> (rbt \<times> rbt option) option" where
  "RBT_remove_node root node removed =
     (case removed of
        None \<Rightarrow> Some (root, None)
      | Some _ \<Rightarrow>
          (case node of
             None \<Rightarrow> Some (root, Some BLACK_LEAF)
           | Some (nd, cap) \<Rightarrow> do {
               (newroot, rem) \<leftarrow> RBT_remove_node_inner root nd (ucast cap);
               Some (finish_root newroot, Some rem)
             }))"

section \<open>Notions used in the statements\<close>

text \<open>Successive calls \<open>tree = RBT_add(tree, node, capacity)\<close>, as the tests make them.\<close>

fun add_all :: "rbt \<Rightarrow> (nat \<times> 32 word) list \<Rightarrow> rbt option" where
  "add_all tree [] = Some tree"
| "add_all tree ((node, cap) # rest) =
     do { t \<leftarrow> RBT_add tree (Some node) cap; add_all t rest }"

text \<open>
  For every path from a node down to a leaf, the number of BLACK nodes on it, the node and
  the leaf included (a leaf is BLACK by definition; the transient double-black marks count
  twice).
\<close>

fun weight :: "color \<Rightarrow> nat" where
  "weight BLACK = 1"
| "weight RED = 0"
| "weight DOUBLE_BLACK = 2"

fun black_on_paths :: "rbt \<Rightarrow> nat list" where
  "black_on_paths BLACK_LEAF = [1]"
| "black_on_paths DOUBLE_BLACK_PTR = [2]"
| "black_on_paths (Node a l r n c p u k) =
     map (\<lambda>m. m + weight k) (black_on_paths l @ black_on_paths r)"

text \<open>The same counts without the initial node.\<close>

definition black_below :: "rbt \<Rightarrow> nat list" where
  "black_below root =
     (case root of
        Node _ l r _ _ _ _ _ \<Rightarrow> black_on_paths l @ black_on_paths r
      | _ \<Rightarrow> [0])"

definition equal_black_paths :: "rbt \<Rightarrow> bool" where
  "equal_black_paths root =
     (\<forall>m \<in> set (black_on_paths root). \<forall>m' \<in> set (black_on_paths root). m = m')"

definition root_black :: "rbt \<Rightarrow> bool" where
  "root_black root = (root = BLACK_LEAF \<or> (root \<noteq> DOUBLE_BLACK_PTR \<and> color root = BLACK))"

text \<open>No RED node has a RED child.\<close>

fun no_red_red :: "rbt \<Rightarrow> bool" where
  "no_red_red (Node a l r n c p u k) =
     ((k = RED \<longrightarrow> red l \<noteq> Some True \<and> red r \<noteq> Some True) \<and> no_red_red l \<and> no_red_red r)"
| "no_red_red t = True"

text \<open>
  The black height of a subtree along its left spine, with the weights above, and the
  balance of the two sides at every node.
\<close>

fun wbh :: "rbt \<Rightarrow> nat" where
  "wbh BLACK_LEAF = 1"
| "wbh DOUBLE_BLACK_PTR = 2"
| "wbh (Node a l r n c p u k) = wbh l + weight k"

fun balanced :: "rbt \<Rightarrow> bool" where
  "balanced (Node a l r n c p u k) = (wbh l = wbh r \<and> balanced l \<and> balanced r)"
| "balanced t = True"

text \<open>
  The headers of all structs reachable through \<open>left\<close>, \<open>right\<close> and \<open>next\<close>: address,
  \<open>capacity\<close>, \<open>prev_dist\<close> and \<open>in_use\<close>.
\<close>

fun headers :: "rbt \<Rightarrow> (nat \<times> 30 word \<times> 30 word \<times> bool) list" where
  "headers (Node a l r n c p u k) = (a, c, p, u) # headers l @ headers r @ headers n"
| "headers t = []"

definition addrs :: "rbt \<Rightarrow> nat list" where
  "addrs t = map fst (headers t)"

text \<open>The capacities of all stored nodes, tree nodes and list members.\<close>

definition capacities :: "rbt \<Rightarrow> 30 word list" where
  "capacities t = map (\<lambda>h. fst (snd h)) (headers t)"

text \<open>
  A list of nodes of one capacity hanging off a tree node: each member has no children, the
  capacity of the tree node, and the list ends with a null pointer.
\<close>

fun bucket :: "30 word \<Rightarrow> rbt \<Rightarrow> bool" where
  "bucket c BLACK_LEAF = True"
| "bucket c DOUBLE_BLACK_PTR = False"
| "bucket c (Node a l r n c' p u k) =
     (l = BLACK_LEAF \<and> r = BLACK_LEAF \<and> c' = c \<and> bucket c n)"

fun buckets :: "rbt \<Rightarrow> bool" where
  "buckets (Node a l r n c p u k) = (bucket c n \<and> buckets l \<and> buckets r)"
| "buckets t = True"

text \<open>The capacities of the tree nodes, in order.\<close>

fun keys :: "rbt \<Rightarrow> 30 word list" where
  "keys (Node a l r n c p u k) = keys l @ c # keys r"
| "keys t = []"

text \<open>
  The traversal of \<open>RBT_in_order_print\<close> (left subtree, node, its list, right subtree),
  giving the address and the capacity of every stored node.
\<close>

fun list_entries :: "rbt \<Rightarrow> (nat \<times> 30 word) list" where
  "list_entries (Node a l r n c p u k) = (a, c) # list_entries n"
| "list_entries t = []"

fun in_order :: "rbt \<Rightarrow> (nat \<times> 30 word) list" where
  "in_order (Node a l r n c p u k) = in_order l @ (a, c) # list_entries n @ in_order r"
| "in_order t = []"

text \<open>
  A well-formed tree: it passes the representation check, it is a search tree on the stored
  capacities with one tree node for each, the other nodes of a capacity are on the list of
  that tree node, and no struct occurs twice.
\<close>

definition well_formed :: "rbt \<Rightarrow> bool" where
  "well_formed t =
     (RBT_rep_ok t \<and> buckets t \<and> sorted_wrt (<) (keys t) \<and> distinct (addrs t))"

text \<open>
  The trees that sequences of the three operations build from the empty tree. \<open>RBT_add\<close>
  is given a null pointer or storage that is not in the tree.
\<close>

inductive reachable :: "rbt \<Rightarrow> bool" where
  start: "reachable BLACK_LEAF"
| add: "reachable t \<Longrightarrow> (\<forall>a. node = Some a \<longrightarrow> a \<notin> set (addrs t))
         \<Longrightarrow> RBT_add t node cap = Some t' \<Longrightarrow> reachable t'"
| remove_at_least: "reachable t \<Longrightarrow> RBT_remove_at_least t cap removed = Some (t', removed')
         \<Longrightarrow> reachable t'"
| remove_node: "reachable t \<Longrightarrow> RBT_remove_node t node' removed = Some (t', removed')
         \<Longrightarrow> reachable t'"

text \<open>
  The same with every capacity given to \<open>RBT_add\<close> below \<open>2 ^ 30\<close>, so that the field
  \<open>capacity\<close> (30 bits) holds the capacity that was given.
\<close>

inductive built :: "rbt \<Rightarrow> bool" where
  start: "built BLACK_LEAF"
| add: "built t \<Longrightarrow> (\<forall>a. node = Some a \<longrightarrow> a \<notin> set (addrs t)) \<Longrightarrow> cap < 2 ^ 30
         \<Longrightarrow> RBT_add t node cap = Some t' \<Longrightarrow> built t'"
| remove_at_least: "built t \<Longrightarrow> RBT_remove_at_least t cap removed = Some (t', removed')
         \<Longrightarrow> built t'"
| remove_node: "built t \<Longrightarrow> RBT_remove_node t node' removed = Some (t', removed')
         \<Longrightarrow> built t'"

text \<open>
  The test \<open>rbt_insertion_test_2\<close>: the capacities are the character codes of
  \<open>A, L, G, O, R, I, T, H, M\<close>, the storage of the nine nodes is at the addresses 1 to 9,
  and \<open>algorithm_tree\<close> is the tree the test expects after the last insertion.
\<close>

definition algorithm_keys :: "(nat \<times> 32 word) list" where
  "algorithm_keys =
     [(1, 65), (2, 76), (3, 71), (4, 79), (5, 82), (6, 73), (7, 84), (8, 72), (9, 77)]"

definition algorithm_tree :: rbt where
  "algorithm_tree =
     Node 6
       (Node 3 (Node 1 BLACK_LEAF BLACK_LEAF BLACK_LEAF 65 0 False BLACK)
               (Node 8 BLACK_LEAF BLACK_LEAF BLACK_LEAF 72 0 False BLACK)
               BLACK_LEAF 71 0 False RED)
       (Node 4 (Node 2 BLACK_LEAF
                  (Node 9 BLACK_LEAF BLACK_LEAF BLACK_LEAF 77 0 False RED)
                  BLACK_LEAF 76 0 False BLACK)
               (Node 5 BLACK_LEAF
                  (Node 7 BLACK_LEAF BLACK_LEAF BLACK_LEAF 84 0 False RED)
                  BLACK_LEAF 82 0 False BLACK)
               BLACK_LEAF 79 0 False RED)
       BLACK_LEAF 73 0 False BLACK"

text \<open>Two small trees used as examples.\<close>

definition small_tree :: rbt where
  "small_tree = Node 2 BLACK_LEAF BLACK_LEAF BLACK_LEAF 3 0 False BLACK"

definition payload_tree :: rbt where
  "payload_tree =
     Node 1 (Node 2 BLACK_LEAF BLACK_LEAF BLACK_LEAF 1 7 True RED)
            (Node 3 BLACK_LEAF BLACK_LEAF (Node 4 BLACK_LEAF BLACK_LEAF BLACK_LEAF 3 8 True BLACK)
               3 9 False RED)
            BLACK_LEAF 2 5 True BLACK"



definition triple_tree :: rbt where
  "triple_tree =
     Node 1 (Node 2 BLACK_LEAF BLACK_LEAF BLACK_LEAF 1 0 False RED)
            (Node 3 BLACK_LEAF BLACK_LEAF BLACK_LEAF 3 0 False RED) BLACK_LEAF 2 0 False BLACK"


text \<open>A node that is in no tree and on no list: its three pointers are null.\<close>

fun detached :: "rbt \<Rightarrow> bool" where
  "detached (Node a l r n c p u k) = (l = BLACK_LEAF \<and> r = BLACK_LEAF \<and> n = BLACK_LEAF)"
| "detached t = False"

text \<open>The leftmost node of a subtree: the first node of the subtree in order.\<close>

fun leftmost :: "rbt \<Rightarrow> rbt" where
  "leftmost (Node a l r n c p u k) =
     (if l = BLACK_LEAF then Node a l r n c p u k else leftmost l)"
| "leftmost t = t"

text \<open>
  The addresses of the nodes on the \<open>next\<close> list of the tree nodes of capacity \<open>c\<close>, in the
  order of the list, and the tree without its lists.
\<close>

fun chained :: "30 word \<Rightarrow> rbt \<Rightarrow> nat list" where
  "chained c (Node a l r n c' p u k) =
     chained c l @ (if c' = c then map fst (list_entries n) else []) @ chained c r"
| "chained c t = []"

fun skeleton :: "rbt \<Rightarrow> rbt" where
  "skeleton (Node a l r n c p u k) = Node a (skeleton l) (skeleton r) BLACK_LEAF c p u k"
| "skeleton BLACK_LEAF = BLACK_LEAF"
| "skeleton DOUBLE_BLACK_PTR = DOUBLE_BLACK_PTR"

text \<open>
  The same pointer structure over a heap whose fields \<open>prev_dist\<close> and \<open>in_use\<close> hold
  other values: the struct at address \<open>a\<close> holds the pair \<open>f a\<close>. The fields \<open>left\<close>,
  \<open>right\<close>, \<open>next\<close>, \<open>capacity\<close> and \<open>color\<close> are as they were.
\<close>

fun set_payload :: "(nat \<Rightarrow> 30 word \<times> bool) \<Rightarrow> rbt \<Rightarrow> rbt" where
  "set_payload f (Node a l r n c p u k) =
     Node a (set_payload f l) (set_payload f r) (set_payload f n) c (fst (f a)) (snd (f a)) k"
| "set_payload f BLACK_LEAF = BLACK_LEAF"
| "set_payload f DOUBLE_BLACK_PTR = DOUBLE_BLACK_PTR"

section \<open>Notions used in the proofs\<close>

text \<open>A valid subtree: no doubly-black mark, no red-red violation, balanced.\<close>

definition good :: "rbt \<Rightarrow> bool" where
  "good t = (RBT_double_blackness_ok t \<and> no_red_red t \<and> balanced t)"



text \<open>
  The graph of \<open>RBT_propagate_double_blackness\<close>, one rule for each path through the
  function that returns (lemmas \<open>propagated_imp\<close> and \<open>propagate_imp\<close> below).
\<close>

inductive propagated :: "rbt \<Rightarrow> rbt \<Rightarrow> bool" where
  leaf: "propagated BLACK_LEAF BLACK_LEAF"
| sentinel: "propagated DOUBLE_BLACK_PTR DOUBLE_BLACK_PTR"
| unchanged: "\<not> double_black l \<Longrightarrow> \<not> double_black r
    \<Longrightarrow> propagated (Node a l r n c p u k) (Node a l r n c p u k)"
| left_C: "double_black l \<Longrightarrow> propagated (Node a l rl n c p u RED) t
    \<Longrightarrow> propagated (Node a l (Node ra rl rr rn rc rp ru RED) n c p u k)
          (Node ra t rr rn rc rp ru BLACK)"
| left_A1: "double_black l \<Longrightarrow> rk \<noteq> RED
    \<Longrightarrow> propagated
          (Node a l (Node ra (Node rla rll rlr rln rlc rlp rlu RED) rr rn rc rp ru rk) n c p u k)
          (Node rla (Node a (unmark l) rll n c p u BLACK) (Node ra rlr rr rn rc rp ru rk)
             rln rlc rlp rlu k)"
| left_A2: "double_black l \<Longrightarrow> rk \<noteq> RED \<Longrightarrow> red rl = Some False
    \<Longrightarrow> propagated
          (Node a l (Node ra rl (Node rra rrl rrr rrn rrc rrp rru RED) rn rc rp ru rk) n c p u k)
          (Node ra (Node a (unmark l) rl n c p u BLACK)
             (Node rra rrl rrr rrn rrc rrp rru BLACK) rn rc rp ru k)"
| left_B: "double_black l \<Longrightarrow> rk \<noteq> RED \<Longrightarrow> red rl = Some False \<Longrightarrow> red rr = Some False
    \<Longrightarrow> propagated (Node a l (Node ra rl rr rn rc rp ru rk) n c p u k)
          (Node a (unmark l) (Node ra rl rr rn rc rp ru RED) n c p u (push_up k))"
| right_C: "double_black r \<Longrightarrow> propagated (Node a lr r n c p u RED) t
    \<Longrightarrow> propagated (Node a (Node la ll lr ln lc lp lu RED) r n c p u k)
          (Node la ll t ln lc lp lu BLACK)"
| right_A1: "double_black r \<Longrightarrow> lk \<noteq> RED \<Longrightarrow> lk \<noteq> DOUBLE_BLACK
    \<Longrightarrow> propagated
          (Node a (Node la ll (Node lra lrl lrr lrn lrc lrp lru RED) ln lc lp lu lk) r n c p u k)
          (Node lra (Node la ll lrl ln lc lp lu lk) (Node a lrr (unmark r) n c p u BLACK)
             lrn lrc lrp lru k)"
| right_A2: "double_black r \<Longrightarrow> lk \<noteq> RED \<Longrightarrow> lk \<noteq> DOUBLE_BLACK \<Longrightarrow> red lr = Some False
    \<Longrightarrow> propagated
          (Node a (Node la (Node lla lll llr lln llc llp llu RED) lr ln lc lp lu lk) r n c p u k)
          (Node la (Node lla lll llr lln llc llp llu BLACK)
             (Node a lr (unmark r) n c p u BLACK) ln lc lp lu k)"
| right_B: "double_black r \<Longrightarrow> lk \<noteq> RED \<Longrightarrow> lk \<noteq> DOUBLE_BLACK
    \<Longrightarrow> red lr = Some False \<Longrightarrow> red ll = Some False
    \<Longrightarrow> propagated (Node a (Node la ll lr ln lc lp lu lk) r n c p u k)
          (Node a (Node la ll lr ln lc lp lu RED) (unmark r) n c p u (push_up k))"

text \<open>
  During a removal the doubly-black marks sit at the root of a subtree only (\<open>okdb\<close>).
  \<open>fixable\<close> is what \<open>RBT_propagate_double_blackness\<close> needs of its argument: a node that
  is not doubly black itself, at most one child marked, no red-red violation, and the same
  weighted black height on both sides. \<open>fixed t t'\<close> relates a valid subtree \<open>t\<close> to what a
  removal leaves in its place.
\<close>

fun okdb :: "rbt \<Rightarrow> bool" where
  "okdb (Node a l r n c p u k) = (RBT_double_blackness_ok l \<and> RBT_double_blackness_ok r)"
| "okdb t = True"

definition fixable :: "rbt \<Rightarrow> bool" where
  "fixable t = (case t of
      Node a l r n c p u k \<Rightarrow> k \<noteq> DOUBLE_BLACK \<and> okdb l \<and> okdb r
         \<and> (RBT_double_blackness_ok l \<or> RBT_double_blackness_ok r)
         \<and> no_red_red t \<and> balanced t
    | _ \<Rightarrow> False)"

definition fixed :: "rbt \<Rightarrow> rbt \<Rightarrow> bool" where
  "fixed t t' = (wbh t' = wbh t \<and> balanced t' \<and> no_red_red t' \<and> okdb t'
     \<and> (red t = Some True \<longrightarrow> RBT_double_blackness_ok t')
     \<and> (red t \<noteq> Some True \<longrightarrow> red t' \<noteq> Some True))"

text \<open>
  During an insertion a subtree may have a red-red violation at its root only, and then with
  one RED child (\<open>almost\<close>). \<open>inserted t t'\<close> relates a valid subtree \<open>t\<close> to what an
  insertion leaves in its place. \<open>clean\<close> says that \<open>RBT_eliminate_red_red\<close> finds nothing
  to repair below a child, and \<open>eliminated\<close> is the graph of that function, one rule for
  each path through it that returns.
\<close>

fun almost :: "rbt \<Rightarrow> bool" where
  "almost (Node a l r n c p u k) =
     (no_red_red l \<and> no_red_red r \<and> (k = RED \<longrightarrow> red l \<noteq> Some True \<or> red r \<noteq> Some True))"
| "almost t = True"

definition inserted :: "rbt \<Rightarrow> rbt \<Rightarrow> bool" where
  "inserted t t' = (RBT_double_blackness_ok t' \<and> balanced t' \<and> wbh t' = wbh t \<and> almost t'
     \<and> (red t \<noteq> Some True \<longrightarrow> no_red_red t') \<and> t' \<noteq> BLACK_LEAF)"

fun clean :: "rbt \<Rightarrow> bool" where
  "clean BLACK_LEAF = True"
| "clean DOUBLE_BLACK_PTR = False"
| "clean (Node a l r n c p u k) = (k \<noteq> RED \<or> (red l = Some False \<and> red r = Some False))"

inductive eliminated :: "rbt \<Rightarrow> rbt \<Rightarrow> bool" where
  LL_recolor: "l = Node la (Node lla lll llr lln llc llp llu RED) lr ln lc lp lu RED
    \<Longrightarrow> red r = Some True
    \<Longrightarrow> eliminated (Node a l r n c p u k)
          (Node a (set_color BLACK l) (set_color BLACK r) n c p u RED)"
| LL_rotate: "red r = Some False
    \<Longrightarrow> eliminated
          (Node a (Node la (Node lla lll llr lln llc llp llu RED) lr ln lc lp lu RED) r n c p u k)
          (Node la (Node lla lll llr lln llc llp llu RED) (Node a lr r n c p u RED)
             ln lc lp lu BLACK)"
| LR_recolor: "l = Node la ll (Node lra lrl lrr lrn lrc lrp lru RED) ln lc lp lu RED
    \<Longrightarrow> red ll = Some False \<Longrightarrow> red r = Some True
    \<Longrightarrow> eliminated (Node a l r n c p u k)
          (Node a (set_color BLACK l) (set_color BLACK r) n c p u RED)"
| LR_rotate: "red ll = Some False \<Longrightarrow> red r = Some False
    \<Longrightarrow> eliminated
          (Node a (Node la ll (Node lra lrl lrr lrn lrc lrp lru RED) ln lc lp lu RED) r n c p u k)
          (Node lra (Node la ll lrl ln lc lp lu RED) (Node a lrr r n c p u RED)
             lrn lrc lrp lru BLACK)"
| RL_recolor: "r = Node ra (Node rla rll rlr rln rlc rlp rlu RED) rr rn rc rp ru RED
    \<Longrightarrow> clean l \<Longrightarrow> red l = Some True
    \<Longrightarrow> eliminated (Node a l r n c p u k)
          (Node a (set_color BLACK l) (set_color BLACK r) n c p u RED)"
| RL_rotate: "clean l \<Longrightarrow> red l = Some False
    \<Longrightarrow> eliminated
          (Node a l (Node ra (Node rla rll rlr rln rlc rlp rlu RED) rr rn rc rp ru RED) n c p u k)
          (Node rla (Node a l rll n c p u RED) (Node ra rlr rr rn rc rp ru RED)
             rln rlc rlp rlu BLACK)"
| RR_recolor: "r = Node ra rl (Node rra rrl rrr rrn rrc rrp rru RED) rn rc rp ru RED
    \<Longrightarrow> red rl = Some False \<Longrightarrow> clean l \<Longrightarrow> red l = Some True
    \<Longrightarrow> eliminated (Node a l r n c p u k)
          (Node a (set_color BLACK l) (set_color BLACK r) n c p u RED)"
| RR_rotate: "red rl = Some False \<Longrightarrow> clean l \<Longrightarrow> red l = Some False
    \<Longrightarrow> eliminated
          (Node a l (Node ra rl (Node rra rrl rrr rrn rrc rrp rru RED) rn rc rp ru RED) n c p u k)
          (Node ra (Node a l rl n c p u RED) (Node rra rrl rrr rrn rrc rrp rru RED)
             rn rc rp ru BLACK)"
| unchanged: "clean l \<Longrightarrow> clean r
    \<Longrightarrow> eliminated (Node a l r n c p u k) (Node a l r n c p u k)"

text \<open>What every operation keeps, beyond the order of the capacities.\<close>

definition sound :: "rbt \<Rightarrow> bool" where
  "sound t = (RBT_rep_ok t \<and> buckets t \<and> distinct (addrs t))"

section \<open>Evaluation\<close>

lemmas add_defs =
  RBT_add_def RBT_eliminate_red_red_def red_red_left_def red_red_right_def recolor_def Let_def

lemmas remove_defs =
  RBT_remove_at_least_def RBT_remove_node_def RBT_remove_root_def RBT_remove_node_root_def
  RBT_remove_empty_root_def finish_root_def unmark_def push_up_def
  RBT_propagate_double_blackness.simps Let_def

lemma add_all_algorithm: "add_all BLACK_LEAF algorithm_keys = Some algorithm_tree"
  by (simp add: algorithm_keys_def algorithm_tree_def add_defs)

lemma rep_ok_algorithm: "RBT_rep_ok algorithm_tree"
  by (simp add: algorithm_tree_def RBT_rep_ok_def)

section \<open>The black height and the representation check\<close>

lemma black_height_wbh:
  "RBT_double_blackness_ok t \<Longrightarrow>
   RBT_black_height t = Some (case t of Node _ l _ _ _ _ _ _ \<Rightarrow> int (wbh l) | _ \<Rightarrow> 0)"
proof (induction t rule: RBT_black_height.induct)
  case (3 a l r n c p u k)
  show ?case
  proof (cases l)
    case (Node la ll lr ln lc lp lu lk)
    with 3 show ?thesis by (cases lk) auto
  qed (use 3 in auto)
qed auto

lemma black_wbh:
  assumes "RBT_double_blackness_ok t" "black t = Some b"
  shows "(case t of Node _ l _ _ _ _ _ _ \<Rightarrow> int (wbh l) | _ \<Rightarrow> 0) + (if b then 1 else 0)
         = int (wbh t)"
proof (cases t)
  case (Node a l r n c p u k)
  with assms show ?thesis by (cases k) auto
next
  case BLACK_LEAF
  with assms show ?thesis by simp
next
  case DOUBLE_BLACK_PTR
  with assms show ?thesis by simp
qed

lemma black_height_ok_balanced:
  "RBT_double_blackness_ok t \<Longrightarrow> RBT_black_height_ok t = balanced t"
proof (induction t)
  case (Node a l r n c p u k)
  from Node.prems have dl: "RBT_double_blackness_ok l" and dr: "RBT_double_blackness_ok r"
    by auto
  obtain bl where bl: "black l = Some bl" using dl by (cases l) auto
  obtain br where br: "black r = Some br" using dr by (cases r) auto
  show ?case
    using Node.IH(1)[OF dl] Node.IH(2)[OF dr] black_height_wbh[OF dl] black_height_wbh[OF dr]
      black_wbh[OF dl bl] black_wbh[OF dr br] bl br
    by auto
qed auto

lemma paths_wbh: "balanced t \<Longrightarrow> m \<in> set (black_on_paths t) \<Longrightarrow> m = wbh t"
  by (induction t arbitrary: m) auto

lemma paths_nonempty: "black_on_paths t \<noteq> []"
  by (induction t) auto

lemma black_not_red:
  "RBT_double_blackness_ok x \<Longrightarrow> (black x = Some True) = (red x \<noteq> Some True)"
proof (cases x)
  case (Node a l r n c p u k)
  assume "RBT_double_blackness_ok x"
  with Node show ?thesis by (cases k) auto
qed auto

lemma red_red_ok_no_red_red:
  "RBT_double_blackness_ok t \<Longrightarrow> RBT_red_red_ok t = no_red_red t"
proof (induction t)
  case (Node a l r n c p u k)
  from Node.prems have dl: "RBT_double_blackness_ok l" and dr: "RBT_double_blackness_ok r"
    by auto
  show ?case
    using Node.IH(1)[OF dl] Node.IH(2)[OF dr] black_not_red[OF dl] black_not_red[OF dr]
    by auto
qed auto

section \<open>Propagation of double blackness\<close>

lemma red_SomeD: "red t = Some True \<Longrightarrow> \<exists>a l r n c p u. t = Node a l r n c p u RED"
  by (cases t) auto

lemma red_True_iff: "red t = Some True \<longleftrightarrow> (\<exists>a l r n c p u. t = Node a l r n c p u RED)"
  by (cases t) auto

lemma propagated_imp: "propagated t t' \<Longrightarrow> RBT_propagate_double_blackness t = Some t'"
  by (induction rule: propagated.induct)
     (simp_all add: RBT_propagate_double_blackness.simps Let_def)

lemma propagate_imp:
  "RBT_propagate_double_blackness t = Some t' \<Longrightarrow> propagated t t'"
proof (induction t arbitrary: t' rule: RBT_propagate_double_blackness.induct)
  case (1 root)
  show ?case
  proof (cases root)
    case BLACK_LEAF
    with 1(3) show ?thesis by (simp add: RBT_propagate_double_blackness.simps propagated.leaf)
  next
    case DOUBLE_BLACK_PTR
    with 1(3) show ?thesis by (simp add: RBT_propagate_double_blackness.simps propagated.sentinel)
  next
    case (Node a l r n c p u k)
    note eq = 1(3)[unfolded Node RBT_propagate_double_blackness.simps[of "Node a l r n c p u k"], simplified]
    show ?thesis
    proof (cases "double_black l")
      case dl: True
      show ?thesis
      proof (cases r)
        case rN: (Node ra rl rr rn rc rp ru rk)
        show ?thesis
        proof (cases "rk = RED")
          case True
          from eq dl rN True obtain s where
            s: "RBT_propagate_double_blackness (Node a l rl n c p u RED) = Some s"
            and t': "t' = Node ra s rr rn rc rp ru BLACK"
            by (auto split: bind_splits)
          have "propagated (Node a l rl n c p u RED) s"
            using 1(1)[OF Node dl rN True] s Node rN by simp
          then show ?thesis unfolding Node rN t' True by (rule propagated.left_C[OF dl])
        next
          case False
          with eq dl rN show ?thesis unfolding Node
            by (auto simp: Let_def red_True_iff split: bind_splits if_splits
                intro: propagated.intros)
        qed
      qed (use eq dl in auto)
    next
      case ndl: False
      show ?thesis
      proof (cases "double_black r")
        case dr: True
        show ?thesis
        proof (cases l)
          case lN: (Node la ll lr ln lc lp lu lk)
          show ?thesis
          proof (cases "lk = RED")
            case True
            from eq ndl dr lN True obtain s where
              s: "RBT_propagate_double_blackness (Node a lr r n c p u RED) = Some s"
              and t': "t' = Node la ll s ln lc lp lu BLACK"
              by (auto split: bind_splits)
            have "propagated (Node a lr r n c p u RED) s"
              using 1(2)[OF Node ndl dr lN True] s Node lN by simp
            then show ?thesis unfolding Node lN t' True by (rule propagated.right_C[OF dr])
          next
            case False
            with eq ndl dr lN show ?thesis unfolding Node
              by (auto simp: Let_def red_True_iff split: bind_splits if_splits
                  intro: propagated.intros)
          qed
        qed (use eq ndl dr in auto)
      next
        case False
        with eq ndl show ?thesis unfolding Node by (auto intro: propagated.unchanged)
      qed
    qed
  qed
qed


lemma fixable_Node [simp]:
  "fixable (Node a l r n c p u k) = (k \<noteq> DOUBLE_BLACK \<and> okdb l \<and> okdb r
         \<and> (RBT_double_blackness_ok l \<or> RBT_double_blackness_ok r)
         \<and> (k = RED \<longrightarrow> red l \<noteq> Some True \<and> red r \<noteq> Some True)
         \<and> no_red_red l \<and> no_red_red r \<and> wbh l = wbh r \<and> balanced l \<and> balanced r)"
  by (auto simp: fixable_def)

lemma wbh_pos [simp]: "0 < wbh t"
  by (induction t) auto

lemma nodb_okdb: "RBT_double_blackness_ok t \<Longrightarrow> okdb t"
  by (cases t) auto

lemma nodb_not_double_black: "RBT_double_blackness_ok t \<Longrightarrow> \<not> double_black t"
  by (cases t) auto

lemma nodb_red: "RBT_double_blackness_ok t \<Longrightarrow> red t \<noteq> Some True \<Longrightarrow> red t = Some False"
  by (cases t) auto

lemma db_cases:
  assumes "double_black t" "okdb t"
  obtains "t = DOUBLE_BLACK_PTR"
  | a l r n c p u where "t = Node a l r n c p u DOUBLE_BLACK"
      "RBT_double_blackness_ok l" "RBT_double_blackness_ok r"
  using assms by (cases t) auto

lemma unmark_props:
  assumes "double_black t" "okdb t"
  shows "wbh t = Suc (wbh (unmark t))" "RBT_double_blackness_ok (unmark t)"
    "balanced (unmark t) = balanced t" "no_red_red (unmark t) = no_red_red t"
    "red (unmark t) = Some False" "red t \<noteq> Some True"
  using assms by (cases rule: db_cases; simp add: unmark_def)+

lemma wbh_ge2_Node:
  assumes "RBT_double_blackness_ok t" "2 \<le> wbh t"
  obtains a l r n c p u k where "t = Node a l r n c p u k" "k \<noteq> DOUBLE_BLACK"
  using assms by (cases t) auto

lemma weight_cases: "k \<noteq> DOUBLE_BLACK \<Longrightarrow> k \<noteq> RED \<Longrightarrow> weight k = 1"
  by (cases k) auto

lemma okdb_nodb: "okdb t \<Longrightarrow> \<not> double_black t \<Longrightarrow> RBT_double_blackness_ok t"
  by (cases t) auto

lemma weight_red: "k \<noteq> DOUBLE_BLACK \<Longrightarrow> k \<noteq> BLACK \<Longrightarrow> weight k = 0"
  by (cases k) auto

lemma not_black_red: "k \<noteq> DOUBLE_BLACK \<Longrightarrow> k \<noteq> BLACK \<Longrightarrow> k = RED"
  by (cases k) auto

lemma propagated_fixed:
  "propagated t t' \<Longrightarrow> fixable t \<Longrightarrow> fixed t t'"
proof (induction rule: propagated.induct)
  case (left_C l a rl n c p u t ra rr rn rc rp ru k)
  from left_C.prems left_C.hyps(1) have k: "k = BLACK"
    by (cases k) (auto dest: nodb_not_double_black)
  from left_C.prems left_C.hyps(1) have "fixable (Node a l rl n c p u RED)"
    by (auto dest: nodb_not_double_black simp: unmark_props nodb_okdb)
  from left_C.IH[OF this] left_C.prems left_C.hyps(1) show ?case
    by (auto simp: fixed_def k dest: nodb_not_double_black)
next
  case (right_C r a lr n c p u t la ll ln lc lp lu k)
  from right_C.prems right_C.hyps(1) have k: "k = BLACK"
    by (cases k) (auto dest: nodb_not_double_black)
  from right_C.prems right_C.hyps(1) have "fixable (Node a lr r n c p u RED)"
    by (auto dest: nodb_not_double_black simp: unmark_props nodb_okdb)
  from right_C.IH[OF this] right_C.prems right_C.hyps(1) show ?case
    by (auto simp: fixed_def k dest: nodb_not_double_black)
qed (auto simp: fixed_def unmark_props nodb_okdb okdb_nodb weight_cases weight_red push_up_def
      dest: nodb_not_double_black split: if_splits)


lemma db_wbh: "double_black t \<Longrightarrow> 2 \<le> wbh t"
  by (cases t) auto

lemma propagated_left_black_sibling:
  assumes "double_black l" "RBT_double_blackness_ok rl" "RBT_double_blackness_ok rr" "rk \<noteq> RED"
  shows "\<exists>t'. propagated (Node a l (Node ra rl rr rn rc rp ru rk) n c p u k) t'"
proof (cases "red rl = Some True")
  case True
  then obtain rla rll rlr rln rlc rlp rlu where "rl = Node rla rll rlr rln rlc rlp rlu RED"
    by (auto simp: red_True_iff)
  then show ?thesis using propagated.left_A1[OF assms(1,4)] by blast
next
  case False
  then have rl: "red rl = Some False" using assms(2) by (rule nodb_red[rotated])
  show ?thesis
  proof (cases "red rr = Some True")
    case True
    then obtain rra rrl rrr rrn rrc rrp rru where "rr = Node rra rrl rrr rrn rrc rrp rru RED"
      by (auto simp: red_True_iff)
    then show ?thesis using propagated.left_A2[OF assms(1,4) rl] by blast
  next
    case False
    then have "red rr = Some False" using assms(3) by (rule nodb_red[rotated])
    then show ?thesis using propagated.left_B[OF assms(1,4) rl] by blast
  qed
qed

lemma propagated_right_black_sibling:
  assumes "double_black r" "RBT_double_blackness_ok ll" "RBT_double_blackness_ok lr"
    "lk \<noteq> RED" "lk \<noteq> DOUBLE_BLACK"
  shows "\<exists>t'. propagated (Node a (Node la ll lr ln lc lp lu lk) r n c p u k) t'"
proof (cases "red lr = Some True")
  case True
  then obtain lra lrl lrr lrn lrc lrp lru where "lr = Node lra lrl lrr lrn lrc lrp lru RED"
    by (auto simp: red_True_iff)
  then show ?thesis using propagated.right_A1[OF assms(1,4,5)] by blast
next
  case False
  then have lr: "red lr = Some False" using assms(3) by (rule nodb_red[rotated])
  show ?thesis
  proof (cases "red ll = Some True")
    case True
    then obtain lla lll llr lln llc llp llu where "ll = Node lla lll llr lln llc llp llu RED"
      by (auto simp: red_True_iff)
    then show ?thesis using propagated.right_A2[OF assms(1,4,5) lr] by blast
  next
    case False
    then have "red ll = Some False" using assms(2) by (rule nodb_red[rotated])
    then show ?thesis using propagated.right_B[OF assms(1,4,5) lr] by blast
  qed
qed

lemma propagated_exists:
  assumes "fixable t"
  shows "\<exists>t'. propagated t t'"
proof -
  from assms obtain a l r n c p u k where t: "t = Node a l r n c p u k"
    by (cases t) (auto simp: fixable_def)
  note f = assms[unfolded t fixable_Node]
  show ?thesis
  proof (cases "double_black l")
    case dl: True
    with f have nr: "RBT_double_blackness_ok r" by (auto dest: nodb_not_double_black)
    have "2 \<le> wbh l" using dl by (rule db_wbh)
    with f have "2 \<le> wbh r" by simp
    with nr obtain ra rl rr rn rc rp ru rk where r: "r = Node ra rl rr rn rc rp ru rk"
      and rk: "rk \<noteq> DOUBLE_BLACK" by (rule wbh_ge2_Node)
    from nr r have nrl: "RBT_double_blackness_ok rl" and nrr: "RBT_double_blackness_ok rr" by auto
    show ?thesis
    proof (cases "rk = RED")
      case False
      from propagated_left_black_sibling[OF dl nrl nrr False] show ?thesis unfolding t r by blast
    next
      case True
      have "2 \<le> wbh rl" using \<open>2 \<le> wbh r\<close> r True by simp
      with nrl obtain rla rll rlr rln rlc rlp rlu rlk where
        rl: "rl = Node rla rll rlr rln rlc rlp rlu rlk" and "rlk \<noteq> DOUBLE_BLACK"
        by (rule wbh_ge2_Node)
      from f r True rl have "rlk \<noteq> RED" by auto
      from nrl rl have "RBT_double_blackness_ok rll" "RBT_double_blackness_ok rlr" by auto
      from propagated_left_black_sibling[OF dl this \<open>rlk \<noteq> RED\<close>]
      obtain s where "propagated (Node a l (Node rla rll rlr rln rlc rlp rlu rlk) n c p u RED) s"
        by blast
      then show ?thesis unfolding t r True rl using propagated.left_C[OF dl] by blast
    qed
  next
    case ndl: False
    show ?thesis
    proof (cases "double_black r")
      case False
      with ndl show ?thesis unfolding t using propagated.unchanged by blast
    next
      case dr: True
      with f have nl: "RBT_double_blackness_ok l" by (auto dest: nodb_not_double_black)
      have "2 \<le> wbh r" using dr by (rule db_wbh)
      with f have "2 \<le> wbh l" by simp
      with nl obtain la ll lr ln lc lp lu lk where l: "l = Node la ll lr ln lc lp lu lk"
        and lk: "lk \<noteq> DOUBLE_BLACK" by (rule wbh_ge2_Node)
      from nl l have nll: "RBT_double_blackness_ok ll" and nlr: "RBT_double_blackness_ok lr" by auto
      show ?thesis
      proof (cases "lk = RED")
        case False
        from propagated_right_black_sibling[OF dr nll nlr False lk] show ?thesis
          unfolding t l by blast
      next
        case True
        have "2 \<le> wbh lr" using \<open>2 \<le> wbh l\<close> l True f by simp
        with nlr obtain lra lrl lrr lrn lrc lrp lru lrk where
          lr: "lr = Node lra lrl lrr lrn lrc lrp lru lrk" and lrk: "lrk \<noteq> DOUBLE_BLACK"
          by (rule wbh_ge2_Node)
        from f l True lr have "lrk \<noteq> RED" by auto
        from nlr lr have "RBT_double_blackness_ok lrl" "RBT_double_blackness_ok lrr" by auto
        from propagated_right_black_sibling[OF dr this \<open>lrk \<noteq> RED\<close> lrk]
        obtain s where "propagated (Node a (Node lra lrl lrr lrn lrc lrp lru lrk) r n c p u RED) s"
          by blast
        then show ?thesis unfolding t l True lr using propagated.right_C[OF dr] by blast
      qed
    qed
  qed
qed

lemma good_Node [simp]:
  "good (Node a l r n c p u k) = (k \<noteq> DOUBLE_BLACK \<and> good l \<and> good r
     \<and> (k = RED \<longrightarrow> red l \<noteq> Some True \<and> red r \<noteq> Some True) \<and> wbh l = wbh r)"
  by (auto simp: good_def)

lemma good_leaf [simp]: "good BLACK_LEAF" "\<not> good DOUBLE_BLACK_PTR"
  by (auto simp: good_def)

lemma wbh_nz [simp]: "wbh t \<noteq> 0"
  using wbh_pos[of t] by simp

lemma headers_unmark [simp]: "headers (unmark t) = headers t"
  by (cases t) (auto simp: unmark_def)

lemma in_order_unmark [simp]: "in_order (unmark t) = in_order t"
  by (cases t) (auto simp: unmark_def)

lemma keys_unmark [simp]: "keys (unmark t) = keys t"
  by (cases t) (auto simp: unmark_def)

lemma buckets_unmark [simp]: "buckets (unmark t) = buckets t"
  by (cases t) (auto simp: unmark_def)

lemma propagated_headers: "propagated t t' \<Longrightarrow> mset (headers t') = mset (headers t)"
  by (induction rule: propagated.induct) auto

lemma propagated_in_order: "propagated t t' \<Longrightarrow> in_order t' = in_order t"
  by (induction rule: propagated.induct) auto

lemma propagated_keys: "propagated t t' \<Longrightarrow> keys t' = keys t"
  by (induction rule: propagated.induct) auto

lemma propagated_buckets: "propagated t t' \<Longrightarrow> buckets t' = buckets t"
  by (induction rule: propagated.induct) auto

lemma propagate_fix:
  assumes "fixable t"
  shows "\<exists>t'. RBT_propagate_double_blackness t = Some t' \<and> fixed t t'"
proof -
  from propagated_exists[OF assms] obtain t' where "propagated t t'" by blast
  with propagated_imp[OF this] propagated_fixed[OF this assms] show ?thesis by blast
qed

lemma good_fixed_refl: "good t \<Longrightarrow> fixed t t"
  by (auto simp: fixed_def good_def nodb_okdb)

lemma propagate_left:
  assumes "good (Node a l r n c p u k)" "fixed l l'"
  shows "\<exists>t'. RBT_propagate_double_blackness (Node a' l' r n' c' p' u' k) = Some t'
            \<and> fixed (Node a l r n c p u k) t'"
proof -
  have "fixable (Node a' l' r n' c' p' u' k)"
    using assms by (auto simp: fixed_def good_def nodb_okdb)
  from propagate_fix[OF this] obtain t' where
    "RBT_propagate_double_blackness (Node a' l' r n' c' p' u' k) = Some t'"
    "fixed (Node a' l' r n' c' p' u' k) t'" by blast
  then show ?thesis using assms(2) by (auto simp: fixed_def)
qed

lemma propagate_right:
  assumes "good (Node a l r n c p u k)" "fixed r r'"
  shows "\<exists>t'. RBT_propagate_double_blackness (Node a' l r' n' c' p' u' k) = Some t'
            \<and> fixed (Node a l r n c p u k) t'"
proof -
  have "fixable (Node a' l r' n' c' p' u' k)"
    using assms by (auto simp: fixed_def good_def nodb_okdb)
  from propagate_fix[OF this] obtain t' where
    "RBT_propagate_double_blackness (Node a' l r' n' c' p' u' k) = Some t'"
    "fixed (Node a' l r' n' c' p' u' k) t'" by blast
  then show ?thesis using assms by (auto simp: fixed_def)
qed

text \<open>A node with no left child is replaced by its right child.\<close>

lemma splice:
  assumes "good (Node a BLACK_LEAF r n c p u k)"
  shows "\<exists>x. (if k = BLACK then blacken r else Some r) = Some x
            \<and> fixed (Node a BLACK_LEAF r n c p u k) x"
proof (cases r)
  case BLACK_LEAF
  with assms show ?thesis by (cases k) (auto simp: fixed_def)
next
  case DOUBLE_BLACK_PTR
  with assms show ?thesis by simp
next
  case (Node ra rl rr rn rc rp ru rk)
  with assms have "rk = RED" by (cases rk) auto
  with assms Node show ?thesis by (cases k) (auto simp: fixed_def good_def)
qed


lemma addrs_simps [simp]:
  "addrs (Node a l r n c p u k) = a # addrs l @ addrs r @ addrs n"
  "addrs BLACK_LEAF = []" "addrs DOUBLE_BLACK_PTR = []"
  by (auto simp: addrs_def)

lemma find_swap_fix:
  assumes "good (Node a l r n c p u k)" "distinct (addrs (Node a l r n c p u k))"
    "l \<noteq> BLACK_LEAF"
  shows "\<exists>swap pv nt ft sa sl sr sn sc sp su sk.
           find_swap (Node a l r n c p u k) = Some (swap, pv, nt)
           \<and> RBT_propagate_double_blackness_prevswap pv nt = Some ft
           \<and> fixed (Node a l r n c p u k) ft \<and> pv \<in> set (addrs (Node a l r n c p u k))
           \<and> swap = Node sa sl sr sn sc sp su sk"
  using assms
proof (induction l arbitrary: a r n c p u k)
  case (Node sa sl sr sn sc sp su sk)
  let ?l = "Node sa sl sr sn sc sp su sk"
  from Node.prems(1) have gl: "good ?l" by simp
  show ?case
  proof (cases "sl = BLACK_LEAF")
    case True
    from splice[of sa sr sn sc sp su sk] gl True obtain x where
      x: "(if sk = BLACK then blacken sr else Some sr) = Some x" and fx: "fixed ?l x"
      by auto
    from propagate_left[OF Node.prems(1) fx] obtain t' where
      "RBT_propagate_double_blackness (Node a x r n c p u k) = Some t'"
      "fixed (Node a ?l r n c p u k) t'" by blast
    then show ?thesis using x True by auto
  next
    case False
    from Node.prems(2) have dl: "distinct (addrs ?l)" by auto
    from Node.IH(1)[OF gl dl False] obtain swap pv nl fl sa' sl' sr' sn' sc' sp' su' sk' where
      fs: "find_swap ?l = Some (swap, pv, nl)"
      and pp: "RBT_propagate_double_blackness_prevswap pv nl = Some fl"
      and fx: "fixed ?l fl" and pv: "pv \<in> set (addrs ?l)"
      and sw: "swap = Node sa' sl' sr' sn' sc' sp' su' sk'"
      by blast
    from pv Node.prems(2) have "a \<noteq> pv" by auto
    from propagate_left[OF Node.prems(1) fx] obtain t' where
      "RBT_propagate_double_blackness (Node a fl r n c p u k) = Some t'"
      "fixed (Node a ?l r n c p u k) t'" by blast
    then show ?thesis using fs pp pv sw False \<open>a \<noteq> pv\<close> by auto
  qed
qed auto


lemma remove_empty_root_fix:
  assumes g: "good (Node a l r n c p u k)" and d: "distinct (addrs (Node a l r n c p u k))"
  shows "\<exists>t'. RBT_remove_empty_root (Node a l r n c p u k)
              = Some (t', Node a BLACK_LEAF BLACK_LEAF n c p u k)
            \<and> fixed (Node a l r n c p u k) t'"
proof (cases l)
  case DOUBLE_BLACK_PTR
  with g show ?thesis by simp
next
  case lL: BLACK_LEAF
  show ?thesis
  proof (cases r)
    case BLACK_LEAF
    with g lL show ?thesis
      by (cases k) (auto simp: RBT_remove_empty_root_def fixed_def)
  next
    case DOUBLE_BLACK_PTR
    with g show ?thesis by simp
  next
    case (Node ra rl rr rn rc rp ru rk)
    with g lL have "rk = RED" by (cases rk) auto
    with g lL Node show ?thesis
      by (cases k) (auto simp: RBT_remove_empty_root_def fixed_def good_def)
  qed
next
  case lN: (Node la ll lr ln lc lp lu lk)
  show ?thesis
  proof (cases r)
    case BLACK_LEAF
    with g lN have "lk = RED" by (cases lk) auto
    with g lN BLACK_LEAF show ?thesis
      by (cases k) (auto simp: RBT_remove_empty_root_def fixed_def good_def)
  next
    case DOUBLE_BLACK_PTR
    with g show ?thesis by simp
  next
    case rN: (Node ra rl rr rn rc rp ru rk)
    show ?thesis
    proof (cases "ll = BLACK_LEAF \<and> lr = BLACK_LEAF")
      case True
      have "fixed l (if lk = BLACK then DOUBLE_BLACK_PTR else ll)"
        using g lN True by (cases lk) (auto simp: fixed_def)
      from propagate_left[OF g this, of la ln lc lp lu] show ?thesis
        using lN rN True by (auto simp: RBT_remove_empty_root_def)
    next
      case nleaf: False
      show ?thesis
      proof (cases "rl = BLACK_LEAF")
        case True
        from g rN True have "good (Node ra BLACK_LEAF rr rn rc rp ru rk)" by simp
        from splice[OF this] obtain x where
          x: "(if rk = BLACK then blacken rr else Some rr) = Some x"
          and fx: "fixed r x" using rN True by auto
        from propagate_right[OF g fx, of ra rn rc rp ru] show ?thesis
          using lN rN True nleaf x by (auto simp: RBT_remove_empty_root_def)
      next
        case False
        from g rN have gr: "good (Node ra rl rr rn rc rp ru rk)" by simp
        from d rN have dr: "distinct (addrs (Node ra rl rr rn rc rp ru rk))" by auto
        from find_swap_fix[OF gr dr False] obtain swap pv nt ft sa sl sr sn sc sp su sk where
          fs: "find_swap r = Some (swap, pv, nt)"
          and pp: "RBT_propagate_double_blackness_prevswap pv nt = Some ft"
          and fx: "fixed r ft" and sw: "swap = Node sa sl sr sn sc sp su sk"
          unfolding rN by blast
        from propagate_right[OF g fx, of sa sn sc sp su] show ?thesis
          using lN rN False nleaf fs pp sw by (auto simp: RBT_remove_empty_root_def)
      qed
    qed
  qed
qed

section \<open>What a removal keeps: headers and lists\<close>

lemma propagate_headers:
  "RBT_propagate_double_blackness t = Some t' \<Longrightarrow> mset (headers t') = mset (headers t)"
  by (rule propagated_headers[OF propagate_imp])

lemma propagate_buckets:
  "RBT_propagate_double_blackness t = Some t' \<Longrightarrow> buckets t' = buckets t"
  by (rule propagated_buckets[OF propagate_imp])

lemma propagate_content:
  "RBT_propagate_double_blackness t = Some t'
   \<Longrightarrow> mset (headers t') = mset (headers t) \<and> buckets t' = buckets t"
  using propagate_headers propagate_buckets by blast

lemma prevswap_content:
  "RBT_propagate_double_blackness_prevswap pv t = Some t'
   \<Longrightarrow> mset (headers t') = mset (headers t) \<and> buckets t' = buckets t"
proof (induction pv t arbitrary: t' rule: RBT_propagate_double_blackness_prevswap.induct)
  case (1 pv a l r n c p u k)
  show ?case
  proof (cases "a = pv")
    case True
    with 1(2) show ?thesis by (auto dest: propagate_headers propagate_buckets)
  next
    case False
    with 1(2) obtain nl where nl: "RBT_propagate_double_blackness_prevswap pv l = Some nl"
      and t': "RBT_propagate_double_blackness (Node a nl r n c p u k) = Some t'"
      by (auto split: bind_splits)
    from 1(1)[OF False nl] propagate_headers[OF t'] propagate_buckets[OF t']
    show ?thesis by auto
  qed
qed auto

lemma blacken_content:
  "blacken t = Some t' \<Longrightarrow> headers t' = headers t \<and> buckets t' = buckets t"
  by (cases t) auto

lemma find_swap_content:
  "find_swap t = Some (swap, pv, nt) \<Longrightarrow>
   \<exists>sa sr sn sc sp su sk. swap = Node sa BLACK_LEAF sr sn sc sp su sk
     \<and> mset (headers t) = mset (headers nt) + {#(sa, sc, sp, su)#} + mset (headers sn)
     \<and> (buckets t \<longrightarrow> buckets nt \<and> bucket sc sn)"
proof (induction t arbitrary: swap pv nt rule: find_swap.induct)
  case (1 a l r n c p u k)
  from 1(2) obtain sa sl sr sn sc sp su sk where l: "l = Node sa sl sr sn sc sp su sk"
    by (cases l) auto
  show ?case
  proof (cases "sl = BLACK_LEAF")
    case True
    with 1(2) l obtain x where x: "(if sk = BLACK then blacken sr else Some sr) = Some x"
      and r: "swap = l" "nt = Node a x r n c p u k"
      by (auto split: bind_splits)
    from x have "headers x = headers sr \<and> buckets x = buckets sr"
      by (auto split: if_splits dest: blacken_content)
    with r l True show ?thesis by auto
  next
    case False
    with 1(2) l obtain nl where f: "find_swap l = Some (swap, pv, nl)"
      and nt: "nt = Node a nl r n c p u k"
      by (auto split: bind_splits)
    from 1(1)[OF l False f] nt show ?thesis by auto
  qed
qed auto


lemma remove_empty_root_content:
  assumes "RBT_remove_empty_root (Node a l r n c p u k) = Some (t', rem)"
  shows "rem = Node a BLACK_LEAF BLACK_LEAF n c p u k
         \<and> mset (headers t') = mset (headers l) + mset (headers r)
         \<and> (buckets l \<and> buckets r \<longrightarrow> buckets t')"
proof (cases l)
  case DOUBLE_BLACK_PTR
  with assms show ?thesis by (simp add: RBT_remove_empty_root_def Let_def split: if_splits)
next
  case lL: BLACK_LEAF
  with assms show ?thesis
    by (cases r) (auto simp: RBT_remove_empty_root_def Let_def split: if_splits)
next
  case lN: (Node la ll lr ln lc lp lu lk)
  show ?thesis
  proof (cases r)
    case BLACK_LEAF
    with assms lN show ?thesis by (auto simp: RBT_remove_empty_root_def Let_def split: if_splits)
  next
    case DOUBLE_BLACK_PTR
    with assms lN show ?thesis
      by (auto simp: RBT_remove_empty_root_def Let_def split: if_splits bind_splits
          dest!: propagate_content)
  next
    case rN: (Node ra rl rr rn rc rp ru rk)
    show ?thesis
    proof (cases "ll = BLACK_LEAF \<and> lr = BLACK_LEAF")
      case True
      with assms lN rN show ?thesis
        by (auto simp: RBT_remove_empty_root_def Let_def split: if_splits bind_splits
            dest!: propagate_content)
    next
      case nleaf: False
      show ?thesis
      proof (cases "rl = BLACK_LEAF")
        case True
        with assms lN rN nleaf obtain x where
          x: "(if rk = BLACK then blacken rr else Some rr) = Some x"
          and t': "RBT_propagate_double_blackness (Node ra l x rn rc rp ru k) = Some t'"
          and rem: "rem = Node a BLACK_LEAF BLACK_LEAF n c p u k"
          by (auto simp: RBT_remove_empty_root_def Let_def split: bind_splits)
        from x have "headers x = headers rr \<and> buckets x = buckets rr"
          by (auto split: if_splits dest: blacken_content)
        with propagate_headers[OF t'] propagate_buckets[OF t'] rem rN True
        show ?thesis by auto
      next
        case False
        with assms lN rN nleaf obtain swap pv nr fr where
          fs: "find_swap r = Some (swap, pv, nr)"
          and pp: "RBT_propagate_double_blackness_prevswap pv nr = Some fr"
          and t': "RBT_propagate_double_blackness (set_color k (set_right fr (set_left l swap)))
                   = Some t'"
          and rem: "rem = Node a BLACK_LEAF BLACK_LEAF n c p u k"
          by (auto simp: RBT_remove_empty_root_def Let_def split: bind_splits)
        from find_swap_content[OF fs] obtain sa sr sn sc sp su sk where
          sw: "swap = Node sa BLACK_LEAF sr sn sc sp su sk"
          and h: "mset (headers r) = mset (headers nr) + {#(sa, sc, sp, su)#} + mset (headers sn)"
          and b: "buckets r \<longrightarrow> buckets nr \<and> bucket sc sn" by blast
        from prevswap_content[OF pp] propagate_headers[OF t'] propagate_buckets[OF t'] sw h b rem
        show ?thesis by auto
      qed
    qed
  qed
qed

lemma remove_root_content:
  assumes "RBT_remove_root (Node a l r n c p u k) = Some (t', rem)"
  shows "mset (headers t') + mset (headers rem) = mset (headers (Node a l r n c p u k))
         \<and> (buckets (Node a l r n c p u k) \<longrightarrow> buckets t' \<and> detached rem)
         \<and> rem \<noteq> BLACK_LEAF \<and> rem \<noteq> DOUBLE_BLACK_PTR
         \<and> (bucket c n \<longrightarrow> capacity rem = c)"
proof (cases n)
  case BLACK_LEAF
  with assms remove_empty_root_content[of a l r n c p u k t' rem] show ?thesis
    by (auto simp: RBT_remove_root_def)
next
  case DOUBLE_BLACK_PTR
  with assms show ?thesis by (simp add: RBT_remove_root_def)
next
  case (Node ta tlf trt tn tc tp tu tk)
  with assms show ?thesis by (auto simp: RBT_remove_root_def)
qed

lemma remove_at_least_inner_content:
  "RBT_remove_at_least_inner t cap = Some (t', rem) \<Longrightarrow>
     mset (headers t') + mset (headers rem) = mset (headers t)
     \<and> (buckets t \<longrightarrow> buckets t' \<and> (rem = BLACK_LEAF \<or> detached rem))
     \<and> rem \<noteq> DOUBLE_BLACK_PTR \<and> (rem = BLACK_LEAF \<longrightarrow> t' = t)"
proof (induction t arbitrary: t' rem)
  case (Node a l r n c p u k)
  note eq = Node.prems
  show ?case
  proof (cases "cap = ucast c")
    case True
    with eq remove_root_content[of a l r n c p u k t' rem] show ?thesis by auto
  next
    case ne: False
    show ?thesis
    proof (cases "cap < ucast c")
      case True
      with eq ne obtain nl rem1 where il: "RBT_remove_at_least_inner l cap = Some (nl, rem1)"
        by (auto split: bind_splits)
      note ih = Node.IH(1)[OF il]
      show ?thesis
      proof (cases "rem1 = BLACK_LEAF")
        case True
        with eq ne \<open>cap < ucast c\<close> il have "RBT_remove_root (Node a l r n c p u k) = Some (t', rem)"
          by simp
        from remove_root_content[OF this] show ?thesis by auto
      next
        case False
        with eq ne \<open>cap < ucast c\<close> il have
          t': "RBT_propagate_double_blackness (Node a nl r n c p u k) = Some t'"
          and "rem = rem1" by (auto split: bind_splits)
        with ih False propagate_headers[OF t'] propagate_buckets[OF t'] show ?thesis by auto
      qed
    next
      case False
      with eq ne obtain nr rem1 where ir: "RBT_remove_at_least_inner r cap = Some (nr, rem1)"
        by (auto split: bind_splits)
      note ih = Node.IH(2)[OF ir]
      show ?thesis
      proof (cases "rem1 = BLACK_LEAF")
        case True
        with eq ne \<open>\<not> cap < ucast c\<close> ir show ?thesis by auto
      next
        case nf: False
        with eq ne False ir have
          t': "RBT_propagate_double_blackness (Node a l nr n c p u k) = Some t'"
          and "rem = rem1" by (auto split: bind_splits)
        with ih nf propagate_headers[OF t'] propagate_buckets[OF t'] show ?thesis by auto
      qed
    qed
  qed
qed auto


lemma remove_from_list_content:
  "remove_from_list t node = Some (t', rem) \<Longrightarrow>
     mset (headers t') + mset (headers rem) = mset (headers t)
     \<and> (bucket c t \<longrightarrow> bucket c t' \<and> (rem = BLACK_LEAF \<or> detached rem \<and> capacity rem = c))
     \<and> rem \<noteq> DOUBLE_BLACK_PTR \<and> (rem = BLACK_LEAF \<longrightarrow> t' = t)
     \<and> (rem \<noteq> BLACK_LEAF \<longrightarrow> addr rem = node)"
proof (induction t arbitrary: t' rem)
  case (Node a l r n c' p u k)
  show ?case
  proof (cases "node = a")
    case True
    with Node.prems show ?thesis by auto
  next
    case False
    with Node.prems obtain rest where "remove_from_list n node = Some (rest, rem)"
      and "t' = Node a l r rest c' p u k" by (auto split: bind_splits)
    with Node.IH(3)[OF this(1)] show ?thesis by auto
  qed
qed auto

lemma remove_node_root_content:
  assumes "RBT_remove_node_root (Node a l r n c p u k) node = Some (t', rem)"
  shows "mset (headers t') + mset (headers rem) \<subseteq># mset (headers (Node a l r n c p u k))
     \<and> (buckets (Node a l r n c p u k) \<longrightarrow>
          mset (headers t') + mset (headers rem) = mset (headers (Node a l r n c p u k))
          \<and> buckets t' \<and> (rem = BLACK_LEAF \<or> detached rem \<and> capacity rem = c))
     \<and> rem \<noteq> DOUBLE_BLACK_PTR \<and> (rem = BLACK_LEAF \<longrightarrow> t' = Node a l r n c p u k)
     \<and> (rem \<noteq> BLACK_LEAF \<longrightarrow> addr rem = node)"
proof (cases "node = a")
  case False
  with assms obtain nn where rl: "remove_from_list n node = Some (nn, rem)"
    and t': "t' = Node a l r nn c p u k"
    by (auto simp: RBT_remove_node_root_def split: bind_splits)
  from remove_from_list_content[OF rl, of c] t' show ?thesis by auto
next
  case True
  show ?thesis
  proof (cases n)
    case BLACK_LEAF
    with assms True have "RBT_remove_empty_root (Node a l r n c p u k) = Some (t', rem)"
      by (simp add: RBT_remove_node_root_def)
    from remove_empty_root_content[OF this] BLACK_LEAF True show ?thesis by auto
  next
    case DOUBLE_BLACK_PTR
    with assms True show ?thesis by (simp add: RBT_remove_node_root_def)
  next
    case (Node na nl nr nn nc np nu nk)
    with assms True show ?thesis by (auto simp: RBT_remove_node_root_def)
  qed
qed

lemma remove_node_inner_content:
  "RBT_remove_node_inner t node cap = Some (t', rem) \<Longrightarrow>
     mset (headers t') + mset (headers rem) \<subseteq># mset (headers t)
     \<and> (buckets t \<longrightarrow> mset (headers t') + mset (headers rem) = mset (headers t)
          \<and> buckets t' \<and> (rem = BLACK_LEAF \<or> detached rem))
     \<and> rem \<noteq> DOUBLE_BLACK_PTR
     \<and> (rem \<noteq> BLACK_LEAF \<longrightarrow> addr rem = node)"
proof (induction t arbitrary: t' rem)
  case (Node a l r n c p u k)
  note eq = Node.prems
  show ?case
  proof (cases "cap = ucast c")
    case True
    with eq remove_node_root_content[of a l r n c p u k node t' rem] show ?thesis by auto
  next
    case ne: False
    show ?thesis
    proof (cases "cap < ucast c")
      case True
      with eq ne obtain nl where il: "RBT_remove_node_inner l node cap = Some (nl, rem)"
        and t': "RBT_propagate_double_blackness (Node a nl r n c p u k) = Some t'"
        by (auto split: bind_splits)
      from Node.IH(1)[OF il] propagate_content[OF t'] show ?thesis
        by (auto simp: subset_mset.add_mono)
    next
      case False
      with eq ne obtain nr where ir: "RBT_remove_node_inner r node cap = Some (nr, rem)"
        and t': "RBT_propagate_double_blackness (Node a l nr n c p u k) = Some t'"
        by (auto split: bind_splits)
      from Node.IH(2)[OF ir] propagate_content[OF t'] show ?thesis
        by (auto simp: subset_mset.add_mono)
    qed
  qed
qed auto

section \<open>What a removal keeps: the red-black invariant\<close>

lemma rep_ok_iff: "RBT_rep_ok t \<longleftrightarrow> root_black t \<and> good t"
proof (cases t)
  case (Node a l r n c p u k)
  show ?thesis
  proof (cases "RBT_double_blackness_ok t")
    case True
    then show ?thesis using Node black_height_ok_balanced[OF True] red_red_ok_no_red_red[OF True]
      by (auto simp: RBT_rep_ok_def root_black_def good_def)
  next
    case False
    then show ?thesis using Node by (auto simp: RBT_rep_ok_def root_black_def good_def)
  qed
qed (auto simp: RBT_rep_ok_def root_black_def)

lemma mset_split_distinct:
  assumes "mset xs + mset ys = mset zs" "distinct (map f zs)"
  shows "distinct (map f xs) \<and> distinct (map f ys) \<and> f ` set xs \<inter> f ` set ys = {}"
proof -
  from assms(1) have "mset (map f (xs @ ys)) = mset (map f zs)"
    by (metis mset_append mset_map)
  from mset_eq_imp_distinct_iff[OF this] assms(2) have "distinct (map f (xs @ ys))" by simp
  then show ?thesis by auto
qed

lemma headers_split_addrs:
  assumes "mset (headers t') + mset (headers rem) = mset (headers t)" "distinct (addrs t)"
  shows "distinct (addrs t') \<and> distinct (addrs rem) \<and> set (addrs t') \<inter> set (addrs rem) = {}"
  using mset_split_distinct[OF assms(1), of fst] assms(2) by (simp add: addrs_def)

lemma remove_root_fix:
  assumes "good (Node a l r n c p u k)" "distinct (addrs (Node a l r n c p u k))" "bucket c n"
  shows "\<exists>t' rem. RBT_remove_root (Node a l r n c p u k) = Some (t', rem)
            \<and> fixed (Node a l r n c p u k) t'"
proof (cases n)
  case BLACK_LEAF
  with remove_empty_root_fix[OF assms(1,2)] show ?thesis by (auto simp: RBT_remove_root_def)
next
  case DOUBLE_BLACK_PTR
  with assms(3) show ?thesis by simp
next
  case (Node ta tlf trt tn tc tp tu tk)
  have "fixed (Node a l r n c p u k) (Node a l r tn c p u k)"
    using good_fixed_refl[OF assms(1)] by (simp add: fixed_def)
  with Node show ?thesis by (auto simp: RBT_remove_root_def)
qed

lemma good_children: "good (Node a l r n c p u k) \<Longrightarrow> good l \<and> good r"
  by simp

lemma remove_at_least_inner_fix:
  assumes "good t" "buckets t" "distinct (addrs t)"
  shows "\<exists>t' rem. RBT_remove_at_least_inner t cap = Some (t', rem) \<and> fixed t t'"
  using assms
proof (induction t)
  case (Node a l r n c p u k)
  let ?t = "Node a l r n c p u k"
  from Node.prems have gl: "good l" and gr: "good r" and bl: "buckets l" and br: "buckets r"
    and dl: "distinct (addrs l)" and dr: "distinct (addrs r)" and bn: "bucket c n"
    by auto
  from remove_root_fix[OF Node.prems(1,3) bn] obtain t1 rem1 where
    rr: "RBT_remove_root ?t = Some (t1, rem1)" "fixed ?t t1" by blast
  show ?case
  proof (cases "cap = ucast c")
    case True
    with rr show ?thesis by auto
  next
    case ne: False
    show ?thesis
    proof (cases "cap < ucast c")
      case True
      from Node.IH(1)[OF gl bl dl] obtain nl rem where
        il: "RBT_remove_at_least_inner l cap = Some (nl, rem)" "fixed l nl" by blast
      from propagate_left[OF Node.prems(1) il(2), of a n c p u] obtain t' where
        "RBT_propagate_double_blackness (Node a nl r n c p u k) = Some t'" "fixed ?t t'" by blast
      with rr il ne True show ?thesis by auto
    next
      case False
      from Node.IH(2)[OF gr br dr] obtain nr rem where
        ir: "RBT_remove_at_least_inner r cap = Some (nr, rem)" "fixed r nr" by blast
      from propagate_right[OF Node.prems(1) ir(2), of a n c p u] obtain t' where
        "RBT_propagate_double_blackness (Node a l nr n c p u k) = Some t'" "fixed ?t t'" by blast
      with ir ne False good_fixed_refl[OF Node.prems(1)] show ?thesis by auto
    qed
  qed
qed (auto simp: fixed_def)

lemma remove_from_list_total:
  "bucket c t \<Longrightarrow> \<exists>t' rem. remove_from_list t node = Some (t', rem)"
  by (induction t) auto

lemma remove_node_root_fix:
  assumes "good (Node a l r n c p u k)" "distinct (addrs (Node a l r n c p u k))" "bucket c n"
  shows "\<exists>t' rem. RBT_remove_node_root (Node a l r n c p u k) node = Some (t', rem)
            \<and> fixed (Node a l r n c p u k) t'"
proof (cases "node = a")
  case False
  from remove_from_list_total[OF assms(3), of node] obtain nn rem where
    "remove_from_list n node = Some (nn, rem)" by blast
  moreover have "fixed (Node a l r n c p u k) (Node a l r nn c p u k)"
    using good_fixed_refl[OF assms(1)] by (simp add: fixed_def)
  ultimately show ?thesis using False by (auto simp: RBT_remove_node_root_def)
next
  case True
  show ?thesis
  proof (cases n)
    case BLACK_LEAF
    with remove_empty_root_fix[OF assms(1,2)] True show ?thesis
      by (auto simp: RBT_remove_node_root_def)
  next
    case DOUBLE_BLACK_PTR
    with assms(3) show ?thesis by simp
  next
    case (Node na nl nr nn nc np nu nk)
    have "fixed (Node a l r n c p u k) (Node na l r nn nc np nu k)"
      using good_fixed_refl[OF assms(1)] by (simp add: fixed_def)
    with Node True show ?thesis by (auto simp: RBT_remove_node_root_def)
  qed
qed

lemma remove_node_inner_fix:
  assumes "good t" "buckets t" "distinct (addrs t)"
  shows "\<exists>t' rem. RBT_remove_node_inner t node cap = Some (t', rem) \<and> fixed t t'"
  using assms
proof (induction t)
  case (Node a l r n c p u k)
  let ?t = "Node a l r n c p u k"
  from Node.prems have gl: "good l" and gr: "good r" and bl: "buckets l" and br: "buckets r"
    and dl: "distinct (addrs l)" and dr: "distinct (addrs r)" and bn: "bucket c n"
    by auto
  show ?case
  proof (cases "cap = ucast c")
    case True
    with remove_node_root_fix[OF Node.prems(1,3) bn, of node] show ?thesis by auto
  next
    case ne: False
    show ?thesis
    proof (cases "cap < ucast c")
      case True
      from Node.IH(1)[OF gl bl dl] obtain nl rem where
        il: "RBT_remove_node_inner l node cap = Some (nl, rem)" "fixed l nl" by blast
      from propagate_left[OF Node.prems(1) il(2), of a n c p u] obtain t' where
        "RBT_propagate_double_blackness (Node a nl r n c p u k) = Some t'" "fixed ?t t'" by blast
      with il ne True show ?thesis by auto
    next
      case False
      from Node.IH(2)[OF gr br dr] obtain nr rem where
        ir: "RBT_remove_node_inner r node cap = Some (nr, rem)" "fixed r nr" by blast
      from propagate_right[OF Node.prems(1) ir(2), of a n c p u] obtain t' where
        "RBT_propagate_double_blackness (Node a l nr n c p u k) = Some t'" "fixed ?t t'" by blast
      with ir ne False show ?thesis by auto
    qed
  qed
qed (auto simp: fixed_def)

lemma finish_root_rep_ok:
  assumes "fixed t t'" "good t"
  shows "RBT_rep_ok (finish_root t')"
proof (cases t')
  case (Node a l r n c p u k)
  with assms show ?thesis
    by (auto simp: rep_ok_iff finish_root_def fixed_def root_black_def good_def)
qed (auto simp: finish_root_def rep_ok_iff root_black_def)

lemma finish_root_content [simp]:
  "headers (finish_root t) = headers t" "buckets (finish_root t) = buckets t"
  "in_order (finish_root t) = in_order t" "keys (finish_root t) = keys t"
  by (cases t; simp add: finish_root_def)+

section \<open>What an insertion keeps: the red-black invariant\<close>

lemma clean_red: "clean l \<Longrightarrow> \<exists>b. red l = Some b"
  by (cases l) auto

lemma eliminated_imp: "eliminated t e \<Longrightarrow> RBT_eliminate_red_red t = Some e"
proof (induction rule: eliminated.induct)
  case (unchanged l r a n c p u k)
  then show ?case
    by (cases l; cases r)
       (auto simp: RBT_eliminate_red_red_def red_red_left_def red_red_right_def recolor_def)
next
  case (RL_recolor r ra rla rll rlr rln rlc rlp rlu rr rn rc rp ru l a n c p u k)
  then show ?case
    by (cases l)
       (auto simp: RBT_eliminate_red_red_def red_red_left_def red_red_right_def recolor_def)
next
  case (RL_rotate l a ra rla rll rlr rln rlc rlp rlu rr rn rc rp ru n c p u k)
  then show ?case
    by (cases l)
       (auto simp: RBT_eliminate_red_red_def red_red_left_def red_red_right_def recolor_def)
next
  case (RR_recolor r ra rl rra rrl rrr rrn rrc rrp rru rn rc rp ru l a n c p u k)
  then show ?case
    by (cases l)
       (auto simp: RBT_eliminate_red_red_def red_red_left_def red_red_right_def recolor_def)
next
  case (RR_rotate rl l a ra rra rrl rrr rrn rrc rrp rru rn rc rp ru n c p u k)
  then show ?case
    by (cases l)
       (auto simp: RBT_eliminate_red_red_def red_red_left_def red_red_right_def recolor_def)
qed (auto simp: RBT_eliminate_red_red_def red_red_left_def red_red_right_def recolor_def
      red_True_iff)


lemma nodb_red_Some: "RBT_double_blackness_ok t \<Longrightarrow> red t = Some True \<or> red t = Some False"
  by (cases t) auto

lemma not_clean_cases:
  assumes "RBT_double_blackness_ok x" "\<not> clean x"
  obtains (left) xa xla xll xlr xln xlc xlp xlu xr xn xc xp xu where
      "x = Node xa (Node xla xll xlr xln xlc xlp xlu RED) xr xn xc xp xu RED"
  | (right) xa xl xra xrl xrr xrn xrc xrp xru xn xc xp xu where
      "x = Node xa xl (Node xra xrl xrr xrn xrc xrp xru RED) xn xc xp xu RED"
      "red xl = Some False"
proof (cases x)
  case (Node xa xl xr xn xc xp xu xk)
  with assms have k: "xk = RED" and nl: "RBT_double_blackness_ok xl"
    and nr: "RBT_double_blackness_ok xr" by auto
  show ?thesis
  proof (cases "red xl = Some True")
    case True
    then show ?thesis using left Node k by (auto simp: red_True_iff)
  next
    case False
    with nodb_red_Some[OF nl] have f: "red xl = Some False" by simp
    with assms(2) Node k nodb_red_Some[OF nr] have "red xr = Some True" by auto
    then show ?thesis using right Node k f by (auto simp: red_True_iff)
  qed
qed (use assms in auto)

lemma eliminated_exists:
  assumes "RBT_double_blackness_ok l" "RBT_double_blackness_ok r"
  shows "\<exists>e. eliminated (Node a l r n c p u k) e"
proof (cases "clean l")
  case False
  from assms(1) False show ?thesis
  proof (cases rule: not_clean_cases)
    case left
    with nodb_red_Some[OF assms(2)] show ?thesis
      by (auto intro: eliminated.LL_recolor eliminated.LL_rotate)
  next
    case right
    with nodb_red_Some[OF assms(2)] show ?thesis
      by (auto intro: eliminated.LR_recolor eliminated.LR_rotate)
  qed
next
  case cl: True
  show ?thesis
  proof (cases "clean r")
    case True
    with cl show ?thesis by (auto intro: eliminated.unchanged)
  next
    case False
    from assms(2) False show ?thesis
    proof (cases rule: not_clean_cases)
      case left
      with nodb_red_Some[OF assms(1)] cl show ?thesis
        by (auto intro: eliminated.RL_recolor eliminated.RL_rotate)
    next
      case right
      with nodb_red_Some[OF assms(1)] cl show ?thesis
        by (auto intro: eliminated.RR_recolor eliminated.RR_rotate)
    qed
  qed
qed

lemma eliminate_eliminated:
  assumes "RBT_double_blackness_ok l" "RBT_double_blackness_ok r"
  shows "\<exists>e. RBT_eliminate_red_red (Node a l r n c p u k) = Some e
            \<and> eliminated (Node a l r n c p u k) e"
  using eliminated_exists[OF assms] eliminated_imp by blast

lemma no_red_red_almost: "no_red_red t \<Longrightarrow> almost t"
  by (cases t) auto

lemma almost_clean: "almost x \<Longrightarrow> clean x \<Longrightarrow> no_red_red x"
  by (cases x) auto

lemma eliminated_inserted:
  assumes "eliminated (Node a l r n c p u k) e"
    "k \<noteq> DOUBLE_BLACK" "RBT_double_blackness_ok l" "RBT_double_blackness_ok r"
    "balanced l" "balanced r" "wbh l = wbh r" "almost l" "almost r"
    "no_red_red l \<or> no_red_red r"
    "k = RED \<longrightarrow> no_red_red l \<and> no_red_red r \<and> (red l \<noteq> Some True \<or> red r \<noteq> Some True)"
  shows "RBT_double_blackness_ok e \<and> balanced e \<and> wbh e = wbh l + weight k \<and> almost e
      \<and> (k \<noteq> RED \<longrightarrow> no_red_red e) \<and> e \<noteq> BLACK_LEAF"
  using assms
  by (cases rule: eliminated.cases)
     (auto simp: red_True_iff weight_cases almost_clean dest: no_red_red_almost)


lemma eliminated_content:
  assumes "eliminated t e"
  shows "mset (headers e) = mset (headers t)" "in_order e = in_order t" "keys e = keys t"
    "buckets e = buckets t"
  using assms by (induction rule: eliminated.induct) (auto simp: red_True_iff)

lemma good_inserted: "good t \<Longrightarrow> t \<noteq> BLACK_LEAF \<Longrightarrow> inserted t t"
  by (auto simp: inserted_def good_def no_red_red_almost)

lemma inserted_left:
  assumes "good (Node a l r n c p u k)" "inserted l l'"
  shows "\<exists>e. RBT_eliminate_red_red (Node a l' r n c p u k) = Some e
           \<and> eliminated (Node a l' r n c p u k) e
           \<and> inserted (Node a l r n c p u k) e"
proof -
  from assms have n: "RBT_double_blackness_ok l'" "RBT_double_blackness_ok r"
    by (auto simp: inserted_def good_def)
  from eliminate_eliminated[OF n] obtain e where
    e: "RBT_eliminate_red_red (Node a l' r n c p u k) = Some e"
       "eliminated (Node a l' r n c p u k) e" by blast
  have "RBT_double_blackness_ok e \<and> balanced e \<and> wbh e = wbh l' + weight k \<and> almost e
      \<and> (k \<noteq> RED \<longrightarrow> no_red_red e) \<and> e \<noteq> BLACK_LEAF"
    using assms by (intro eliminated_inserted[OF e(2)])
      (auto simp: inserted_def good_def no_red_red_almost)
  with e assms show ?thesis by (auto simp: inserted_def)
qed

lemma inserted_right:
  assumes "good (Node a l r n c p u k)" "inserted r r'"
  shows "\<exists>e. RBT_eliminate_red_red (Node a l r' n c p u k) = Some e
           \<and> eliminated (Node a l r' n c p u k) e
           \<and> inserted (Node a l r n c p u k) e"
proof -
  from assms have n: "RBT_double_blackness_ok l" "RBT_double_blackness_ok r'"
    by (auto simp: inserted_def good_def)
  from eliminate_eliminated[OF n] obtain e where
    e: "RBT_eliminate_red_red (Node a l r' n c p u k) = Some e"
       "eliminated (Node a l r' n c p u k) e" by blast
  have "RBT_double_blackness_ok e \<and> balanced e \<and> wbh e = wbh l + weight k \<and> almost e
      \<and> (k \<noteq> RED \<longrightarrow> no_red_red e) \<and> e \<noteq> BLACK_LEAF"
    using assms by (intro eliminated_inserted[OF e(2)])
      (auto simp: inserted_def good_def no_red_red_almost)
  with e assms show ?thesis by (auto simp: inserted_def)
qed

text \<open>The node that \<open>RBT_add_inner\<close> initialises, and its colour in the parent.\<close>

lemma add_inner_inserted:
  assumes "good t"
  shows "\<exists>t'. RBT_add_inner t node cap = Some t'
           \<and> inserted t (if t = BLACK_LEAF then set_color RED t' else t')
           \<and> t' \<noteq> BLACK_LEAF \<and> t' \<noteq> DOUBLE_BLACK_PTR"
  using assms
proof (induction t)
  case BLACK_LEAF
  show ?case by (simp add: inserted_def)
next
  case DOUBLE_BLACK_PTR
  then show ?case by simp
next
  case (Node a l r n c p u k)
  let ?t = "Node a l r n c p u k"
  from Node.prems have gl: "good l" and gr: "good r" by auto
  show ?case
  proof (cases "cap = ucast c")
    case True
    have "inserted ?t (Node a l r (Node node BLACK_LEAF BLACK_LEAF n (ucast cap) 0 False BLACK) c p u k)"
      using good_inserted[OF Node.prems] by (simp add: inserted_def)
    with True show ?thesis by simp
  next
    case ne: False
    show ?thesis
    proof (cases "cap < ucast c")
      case True
      from Node.IH(1)[OF gl] obtain l' where
        l': "RBT_add_inner l node cap = Some l'"
        "inserted l (if l = BLACK_LEAF then set_color RED l' else l')" by blast
      from inserted_left[OF Node.prems l'(2), of ] obtain e where
        "RBT_eliminate_red_red (Node a (if l = BLACK_LEAF then set_color RED l' else l') r n c p u k)
           = Some e" "inserted ?t e" by blast
      with l' ne True show ?thesis by (auto simp: inserted_def)
    next
      case False
      from Node.IH(2)[OF gr] obtain r' where
        r': "RBT_add_inner r node cap = Some r'"
        "inserted r (if r = BLACK_LEAF then set_color RED r' else r')" by blast
      from inserted_right[OF Node.prems r'(2), of ] obtain e where
        "RBT_eliminate_red_red (Node a l (if r = BLACK_LEAF then set_color RED r' else r') n c p u k)
           = Some e" "inserted ?t e" by blast
      with r' ne False show ?thesis by (auto simp: inserted_def)
    qed
  qed
qed

lemma inserted_blacken:
  assumes "inserted t t'"
  shows "RBT_rep_ok (set_color BLACK t')"
proof (cases t')
  case (Node a l r n c p u k)
  with assms show ?thesis
    by (simp add: rep_ok_iff root_black_def inserted_def good_def)
qed (use assms in \<open>auto simp: inserted_def\<close>)

lemma set_color_twice [simp]: "set_color k (set_color k' t) = set_color k t"
  by (cases t) auto

lemma add_rep_ok:
  assumes "RBT_rep_ok t"
  shows "\<exists>t'. RBT_add t node cap = Some t' \<and> RBT_rep_ok t'"
proof (cases node)
  case None
  with assms show ?thesis by (simp add: RBT_add_def)
next
  case (Some nd)
  from assms have g: "good t" by (simp add: rep_ok_iff)
  from add_inner_inserted[OF g, of nd cap] obtain t' where
    t': "RBT_add_inner t nd cap = Some t'"
    and i: "inserted t (if t = BLACK_LEAF then set_color RED t' else t')"
    and n: "t' \<noteq> BLACK_LEAF" "t' \<noteq> DOUBLE_BLACK_PTR" by blast
  from n obtain a l r nn c p u k where N: "t' = Node a l r nn c p u k" by (cases t') auto
  have "RBT_rep_ok (set_color BLACK t')"
    using inserted_blacken[OF i] by (simp split: if_splits)
  with t' N Some show ?thesis by (simp add: RBT_add_def)
qed

section \<open>Capacities: 30-bit fields and 32-bit arguments\<close>

lemma unat_30_bound: "unat (a :: 30 word) < 2 ^ 30"
  using unsigned_less[of a, where 'a=nat] by simp

lemma unat_ucast_30_32: "unat (ucast (a :: 30 word) :: 32 word) = unat a"
  using unat_30_bound[of a] by (simp add: unsigned_ucast_eq take_bit_nat_eq_self)

lemma unat_ucast_32_30: "unat (ucast (w :: 32 word) :: 30 word) = unat w mod 2 ^ 30"
  by (simp add: unsigned_ucast_eq take_bit_eq_mod)



lemma ucast_down_up: "(ucast (ucast (a :: 30 word) :: 32 word) :: 30 word) = a"
  using unat_30_bound[of a] by (simp add: word_unat_eq_iff unat_ucast_32_30 unat_ucast_30_32)


lemma big_not_less: "\<not> (cap :: 32 word) < 2 ^ 30 \<Longrightarrow> ucast (c :: 30 word) < cap"
proof -
  assume "\<not> cap < 2 ^ 30"
  then have "2 ^ 30 \<le> unat cap" by (simp add: word_less_nat_alt not_less)
  moreover have "unat c < 2 ^ 30" by (rule unat_30_bound)
  ultimately show ?thesis by (simp add: word_less_nat_alt unat_ucast_30_32)
qed

section \<open>The operations on sound trees\<close>

lemma content_set_color [simp]:
  "headers (set_color k t) = headers t" "buckets (set_color k t) = buckets t"
  "keys (set_color k t) = keys t" "in_order (set_color k t) = in_order t"
  "addrs (set_color k t) = addrs t"
  by (cases t; simp)+

text \<open>One step of \<open>RBT_add_inner\<close> below a node of another capacity.\<close>

lemma add_inner_left:
  assumes "good (Node a l r n c p u k)" "cap \<noteq> ucast c" "cap < ucast c"
    "RBT_add_inner (Node a l r n c p u k) node cap = Some t'"
  obtains l' where "RBT_add_inner l node cap = Some l'"
    "eliminated (Node a (if l = BLACK_LEAF then set_color RED l' else l') r n c p u k) t'"
proof -
  from assms(1) have "good l" by simp
  from add_inner_inserted[OF this, of node cap] obtain l' where
    l': "RBT_add_inner l node cap = Some l'"
    "inserted l (if l = BLACK_LEAF then set_color RED l' else l')" by blast
  from inserted_left[OF assms(1) l'(2)] obtain e where
    "RBT_eliminate_red_red (Node a (if l = BLACK_LEAF then set_color RED l' else l') r n c p u k)
       = Some e"
    "eliminated (Node a (if l = BLACK_LEAF then set_color RED l' else l') r n c p u k) e"
    by blast
  with assms(2,3,4) l'(1) that show ?thesis by auto
qed

lemma add_inner_right:
  assumes "good (Node a l r n c p u k)" "cap \<noteq> ucast c" "\<not> cap < ucast c"
    "RBT_add_inner (Node a l r n c p u k) node cap = Some t'"
  obtains r' where "RBT_add_inner r node cap = Some r'"
    "eliminated (Node a l (if r = BLACK_LEAF then set_color RED r' else r') n c p u k) t'"
proof -
  from assms(1) have "good r" by simp
  from add_inner_inserted[OF this, of node cap] obtain r' where
    r': "RBT_add_inner r node cap = Some r'"
    "inserted r (if r = BLACK_LEAF then set_color RED r' else r')" by blast
  from inserted_right[OF assms(1) r'(2)] obtain e where
    "RBT_eliminate_red_red (Node a l (if r = BLACK_LEAF then set_color RED r' else r') n c p u k)
       = Some e"
    "eliminated (Node a l (if r = BLACK_LEAF then set_color RED r' else r') n c p u k) e"
    by blast
  with assms(2,3,4) r'(1) that show ?thesis by auto
qed

lemma add_inner_content:
  assumes "good t" "RBT_add_inner t node cap = Some t'"
  shows "mset (headers t') = add_mset (node, ucast cap, 0, False) (mset (headers t))
         \<and> (buckets t \<longrightarrow> buckets t')"
  using assms
proof (induction t arbitrary: t')
  case (Node a l r n c p u k)
  from Node.prems(1) have gl: "good l" and gr: "good r" by auto
  show ?case
  proof (cases "cap = ucast c")
    case True
    then have "(ucast cap :: 30 word) = c" by (simp add: ucast_down_up)
    with Node.prems(2) True show ?thesis by auto
  next
    case ne: False
    show ?thesis
    proof (cases "cap < ucast c")
      case True
      from Node.prems(1) ne True Node.prems(2) obtain l' where
        l': "RBT_add_inner l node cap = Some l'"
        and e: "eliminated (Node a (if l = BLACK_LEAF then set_color RED l' else l') r n c p u k) t'"
        by (rule add_inner_left)
      from Node.IH(1)[OF gl l'] eliminated_content(1,4)[OF e] show ?thesis by auto
    next
      case False
      from Node.prems(1) ne False Node.prems(2) obtain r' where
        r': "RBT_add_inner r node cap = Some r'"
        and e: "eliminated (Node a l (if r = BLACK_LEAF then set_color RED r' else r') n c p u k) t'"
        by (rule add_inner_right)
      from Node.IH(2)[OF gr r'] eliminated_content(1,4)[OF e] show ?thesis by auto
    qed
  qed
qed auto

lemma add_sound:
  assumes "sound t" "\<forall>a. node = Some a \<longrightarrow> a \<notin> set (addrs t)"
  shows "\<exists>t'. RBT_add t node cap = Some t' \<and> sound t'"
proof (cases node)
  case None
  with assms show ?thesis by (simp add: RBT_add_def)
next
  case (Some nd)
  from assms(1) have r: "RBT_rep_ok t" and g: "good t" by (auto simp: sound_def rep_ok_iff)
  from add_rep_ok[OF r, of node cap] obtain t' where t': "RBT_add t node cap = Some t'"
    "RBT_rep_ok t'" by blast
  from add_inner_inserted[OF g, of nd cap] obtain ti where
    ti: "RBT_add_inner t nd cap = Some ti" and "ti \<noteq> BLACK_LEAF" "ti \<noteq> DOUBLE_BLACK_PTR"
    by blast
  then have "RBT_add t node cap = Some (set_color BLACK ti)"
    using Some by (cases ti) (simp_all add: RBT_add_def)
  with t' have c: "t' = set_color BLACK ti" by simp
  from add_inner_content[OF g ti] assms(1) c
  have b: "buckets t'"
    and h: "mset (headers t') = add_mset (nd, ucast cap, 0, False) (mset (headers t))"
    by (simp_all add: sound_def)
  have "mset (addrs t') = mset (nd # addrs t)"
    by (simp add: addrs_def h)
  from mset_eq_imp_distinct_iff[OF this] assms Some have "distinct (addrs t')"
    by (simp add: sound_def)
  with t' b show ?thesis by (simp add: sound_def)
qed

lemma remove_at_least_sound:
  assumes "sound t"
  shows "\<exists>t' removed'. RBT_remove_at_least t cap removed = Some (t', removed')
           \<and> sound t'"
proof (cases removed)
  case None
  with assms show ?thesis by (simp add: RBT_remove_at_least_def)
next
  case (Some x)
  from assms have g: "good t" and b: "buckets t" and d: "distinct (addrs t)"
    by (auto simp: sound_def rep_ok_iff)
  from remove_at_least_inner_fix[OF g b d, of cap] obtain t' rem where
    i: "RBT_remove_at_least_inner t cap = Some (t', rem)" and f: "fixed t t'" by blast
  from remove_at_least_inner_content[OF i] b have
    h: "mset (headers t') + mset (headers rem) = mset (headers t)" and "buckets t'" by auto
  from headers_split_addrs[OF h d] have "distinct (addrs (finish_root t'))"
    by (simp add: addrs_def)
  with finish_root_rep_ok[OF f g] \<open>buckets t'\<close> i Some show ?thesis
    by (auto simp: RBT_remove_at_least_def sound_def)
qed

lemma remove_node_sound:
  assumes "sound t"
  shows "\<exists>t' removed'. RBT_remove_node t node removed = Some (t', removed')
           \<and> sound t'"
proof (cases removed)
  case None
  with assms show ?thesis by (simp add: RBT_remove_node_def)
next
  case (Some x)
  show ?thesis
  proof (cases node)
    case None
    with assms Some show ?thesis by (simp add: RBT_remove_node_def)
  next
    case nd: (Some nc)
    obtain a c where nc: "nc = (a, c)" by (cases nc)
    from assms have g: "good t" and b: "buckets t" and d: "distinct (addrs t)"
      by (auto simp: sound_def rep_ok_iff)
    from remove_node_inner_fix[OF g b d, of a "ucast c"] obtain t' rem where
      i: "RBT_remove_node_inner t a (ucast c) = Some (t', rem)" and f: "fixed t t'" by blast
    from remove_node_inner_content[OF i] b have
      h: "mset (headers t') + mset (headers rem) = mset (headers t)" and "buckets t'" by auto
    from headers_split_addrs[OF h d] have "distinct (addrs (finish_root t'))"
      by (simp add: addrs_def)
    with finish_root_rep_ok[OF f g] \<open>buckets t'\<close> i Some nd nc show ?thesis
      by (auto simp: RBT_remove_node_def sound_def)
  qed
qed

lemma reachable_sound: "reachable t \<Longrightarrow> sound t"
proof (induction rule: reachable.induct)
  case start
  show ?case by (simp add: sound_def RBT_rep_ok_def addrs_def)
next
  case (add t node cap t')
  from add_sound[OF add.IH add.hyps(2), of cap] add.hyps(3) show ?case by auto
next
  case (remove_at_least t cap removed t' removed')
  from remove_at_least_sound[OF remove_at_least.IH, of cap removed] remove_at_least.hyps(2)
  show ?case by auto
next
  case (remove_node t node' removed t' removed')
  from remove_node_sound[OF remove_node.IH, of node' removed] remove_node.hyps(2)
  show ?case by auto
qed

lemma balanced_equal_paths: "balanced t \<Longrightarrow> equal_black_paths t"
  unfolding equal_black_paths_def using paths_wbh by blast

lemma reachable_small_tree: "reachable small_tree"
proof -
  have 1: "reachable (Node 1 BLACK_LEAF BLACK_LEAF BLACK_LEAF 5 0 False BLACK)"
    by (rule reachable.add[OF reachable.start, of "Some 1" 5]) (simp_all add: add_defs)
  have 2: "reachable (Node 1 (Node 2 BLACK_LEAF BLACK_LEAF BLACK_LEAF 3 0 False RED) BLACK_LEAF
             BLACK_LEAF 5 0 False BLACK)"
    by (rule reachable.add[OF 1, of "Some 2" 3]) (simp_all add: add_defs)
  show ?thesis unfolding small_tree_def
    by (rule reachable.remove_at_least[OF 2, of 4 "Some BLACK_LEAF" _
          "Some (Node 1 BLACK_LEAF BLACK_LEAF BLACK_LEAF 5 0 False BLACK)"])
       (simp add: remove_defs)
qed

lemma well_formed_payload_tree: "well_formed payload_tree"
  by (simp add: well_formed_def payload_tree_def RBT_rep_ok_def addrs_def)

lemma remove_payload_tree:
  "RBT_remove_at_least payload_tree 2 (Some BLACK_LEAF)
   = Some (Node 2 BLACK_LEAF
             (Node 3 BLACK_LEAF BLACK_LEAF
                (Node 4 BLACK_LEAF BLACK_LEAF BLACK_LEAF 3 8 True BLACK) 3 9 False RED)
             BLACK_LEAF 1 7 True BLACK,
           Some (Node 1 BLACK_LEAF BLACK_LEAF BLACK_LEAF 2 5 True BLACK))"
  by (simp add: payload_tree_def remove_defs)

lemma finish_root_not_sentinel [simp]: "finish_root t \<noteq> DOUBLE_BLACK_PTR"
  by (cases t) (auto simp: finish_root_def)

lemma addr_in_addrs: "t = Node a l r n c p u k \<Longrightarrow> addr t \<in> set (addrs t)"
  by simp

lemma detached_addrs: "detached t \<Longrightarrow> addrs t = [addr t]"
  by (cases t) auto

section \<open>The search for the best fit\<close>

lemma capacities_simps [simp]:
  "capacities (Node a l r n c p u k) = c # capacities l @ capacities r @ capacities n"
  "capacities BLACK_LEAF = []" "capacities DOUBLE_BLACK_PTR = []"
  by (simp_all add: capacities_def)





lemma word32_cases: "(cap :: 32 word) = ucast (c :: 30 word) \<or> cap < ucast c \<or> ucast c < cap"
  by auto




section \<open>The order of the stored nodes under removal\<close>

lemma propagate_in_order:
  "RBT_propagate_double_blackness t = Some t' \<Longrightarrow> in_order t' = in_order t"
  by (rule propagated_in_order[OF propagate_imp])

lemma propagate_keys:
  "RBT_propagate_double_blackness t = Some t' \<Longrightarrow> keys t' = keys t"
  by (rule propagated_keys[OF propagate_imp])


lemma prevswap_in_order:
  "RBT_propagate_double_blackness_prevswap pv t = Some t'
   \<Longrightarrow> in_order t' = in_order t \<and> keys t' = keys t"
proof (induction pv t arbitrary: t' rule: RBT_propagate_double_blackness_prevswap.induct)
  case (1 pv a l r n c p u k)
  show ?case
  proof (cases "a = pv")
    case True
    with 1(2) show ?thesis by (auto dest: propagate_in_order propagate_keys)
  next
    case False
    with 1(2) obtain nl where nl: "RBT_propagate_double_blackness_prevswap pv l = Some nl"
      and t': "RBT_propagate_double_blackness (Node a nl r n c p u k) = Some t'"
      by (auto split: bind_splits)
    from 1(1)[OF False nl] propagate_in_order[OF t'] propagate_keys[OF t']
    show ?thesis by auto
  qed
qed auto

lemma blacken_in_order:
  "blacken t = Some t' \<Longrightarrow> in_order t' = in_order t \<and> keys t' = keys t"
  by (cases t) auto

lemma find_swap_in_order:
  "find_swap t = Some (swap, pv, nt) \<Longrightarrow>
   in_order t = (addr swap, capacity swap) # list_entries (nxt swap) @ in_order nt
   \<and> keys t = capacity swap # keys nt"
proof (induction t arbitrary: swap pv nt rule: find_swap.induct)
  case (1 a l r n c p u k)
  from 1(2) obtain sa sl sr sn sc sp su sk where l: "l = Node sa sl sr sn sc sp su sk"
    by (cases l) auto
  show ?case
  proof (cases "sl = BLACK_LEAF")
    case True
    with 1(2) l obtain x where x: "(if sk = BLACK then blacken sr else Some sr) = Some x"
      and r: "swap = l" "nt = Node a x r n c p u k"
      by (auto split: bind_splits)
    from x have "in_order x = in_order sr \<and> keys x = keys sr"
      by (auto split: if_splits dest: blacken_in_order)
    with r l True show ?thesis by auto
  next
    case False
    with 1(2) l obtain nl where f: "find_swap l = Some (swap, pv, nl)"
      and nt: "nt = Node a nl r n c p u k"
      by (auto split: bind_splits)
    from 1(1)[OF l False f] nt show ?thesis by auto
  qed
qed auto











section \<open>The order of the capacities is kept\<close>















lemma built_reachable: "built t \<Longrightarrow> reachable t"
  by (induction rule: built.induct) (auto intro: reachable.intros)

section \<open>Examples of removals\<close>





lemma remove_node_payload_tree:
  "RBT_remove_node payload_tree (Some (4, 3)) (Some BLACK_LEAF)
   = Some (Node 1 (Node 2 BLACK_LEAF BLACK_LEAF BLACK_LEAF 1 7 True RED)
             (Node 3 BLACK_LEAF BLACK_LEAF BLACK_LEAF 3 9 False RED) BLACK_LEAF 2 5 True BLACK,
           Some (Node 4 BLACK_LEAF BLACK_LEAF BLACK_LEAF 3 8 True BLACK))"
  by (simp add: payload_tree_def remove_defs)

section \<open>The best fit in a well-formed tree\<close>


section \<open>Removal does not depend on the payload fields\<close>

lemma set_payload_leaf [simp]:
  "(set_payload f t = BLACK_LEAF) = (t = BLACK_LEAF)"
  "(set_payload f t = DOUBLE_BLACK_PTR) = (t = DOUBLE_BLACK_PTR)"
  by (cases t; simp)+

lemma set_payload_tests [simp]:
  "red (set_payload f t) = red t" "double_black (set_payload f t) = double_black t"
  by (cases t; simp)+

lemma set_payload_fields [simp]:
  "set_payload f (set_color k t) = set_color k (set_payload f t)"
  "set_payload f (set_left v t) = set_left (set_payload f v) (set_payload f t)"
  "set_payload f (set_right v t) = set_right (set_payload f v) (set_payload f t)"
  "set_payload f (set_next v t) = set_next (set_payload f v) (set_payload f t)"
  "set_payload f (unmark t) = unmark (set_payload f t)"
  by (cases t; simp add: unmark_def)+

lemma blacken_payload [simp]:
  "blacken (set_payload f t) = map_option (set_payload f) (blacken t)"
  by (cases t) simp_all

lemma propagate_payload:
  "RBT_propagate_double_blackness (set_payload f t)
   = map_option (set_payload f) (RBT_propagate_double_blackness t)"
proof (induction t rule: RBT_propagate_double_blackness.induct)
  case (1 root)
  note P = RBT_propagate_double_blackness.simps
  show ?case
  proof (cases root)
    case BLACK_LEAF
    then show ?thesis by (simp add: P)
  next
    case DOUBLE_BLACK_PTR
    then show ?thesis by (simp add: P)
  next
    case (Node a l r n c p u k)
    note E = P[of "Node a l r n c p u k"]
      P[of "Node a (set_payload f l) (set_payload f r) (set_payload f n) c (fst (f a)) (snd (f a)) k"]
    show ?thesis
    proof (cases "double_black l")
      case dl: True
      show ?thesis
      proof (cases r)
        case rN: (Node ra rl rr rn rc rp ru rk)
        show ?thesis
        proof (cases "rk = RED")
          case True
          from "1.IH"(1)[OF Node dl rN True]
          have ih: "RBT_propagate_double_blackness
                  (Node a (set_payload f l) (set_payload f rl) (set_payload f n) c
                     (fst (f a)) (snd (f a)) RED)
                = map_option (set_payload f) (RBT_propagate_double_blackness (Node a l rl n c p u RED))"
            by (simp add: Node)
          show ?thesis unfolding Node
            apply (simp only: set_payload.simps E)
            apply (cases "RBT_propagate_double_blackness (Node a l rl n c p u RED)")
            apply (simp_all add: dl rN True ih)
            done
        next
          case False
          show ?thesis unfolding Node
            apply (simp only: set_payload.simps E)
            apply (cases rl; cases rr)
            apply (simp_all add: dl rN False Let_def)
            done
        qed
      qed (simp_all add: Node P dl)
    next
      case ndl: False
      show ?thesis
      proof (cases "double_black r")
        case dr: True
        show ?thesis
        proof (cases l)
          case lN: (Node la ll lr ln lc lp lu lk)
          show ?thesis
          proof (cases "lk = RED")
            case True
            from "1.IH"(2)[OF Node ndl dr lN True]
            have ih: "RBT_propagate_double_blackness
                    (Node a (set_payload f lr) (set_payload f r) (set_payload f n) c
                       (fst (f a)) (snd (f a)) RED)
                  = map_option (set_payload f) (RBT_propagate_double_blackness (Node a lr r n c p u RED))"
              by (simp add: Node)
            show ?thesis unfolding Node
              apply (simp only: set_payload.simps E)
              apply (cases "RBT_propagate_double_blackness (Node a lr r n c p u RED)")
              apply (simp_all add: dr lN True ih)
              done
          next
            case False
            from ndl lN have nk: "lk \<noteq> DOUBLE_BLACK" by simp
            show ?thesis unfolding Node
              apply (simp only: set_payload.simps E)
              apply (cases ll; cases lr)
              apply (simp_all add: nk dr lN False Let_def)
              done
          qed
        qed (use ndl in \<open>simp_all add: Node P dr\<close>)
      next
        case False
        then show ?thesis by (simp add: Node E ndl)
      qed
    qed
  qed
qed


lemma prevswap_payload:
  "RBT_propagate_double_blackness_prevswap pv (set_payload f t)
   = map_option (set_payload f) (RBT_propagate_double_blackness_prevswap pv t)"
proof (induction t)
  case (Node a l r n c p u k)
  show ?case
  proof (cases "a = pv")
    case True
    then show ?thesis using propagate_payload[of f "Node a l r n c p u k"] by simp
  next
    case False
    show ?thesis
    proof (cases "RBT_propagate_double_blackness_prevswap pv l")
      case None
      with False Node.IH(1) show ?thesis by simp
    next
      case (Some nl)
      with False Node.IH(1) propagate_payload[of f "Node a nl r n c p u k"] show ?thesis
        by simp
    qed
  qed
qed simp_all

lemma find_swap_payload:
  "find_swap (set_payload f t)
   = map_option (\<lambda>(s, pv, nt). (set_payload f s, pv, set_payload f nt)) (find_swap t)"
proof (induction t)
  case (Node a l r n c p u k)
  show ?case
  proof (cases l)
    case lN: (Node sa sl sr sn sc sp su sk)
    show ?thesis
    proof (cases "sl = BLACK_LEAF")
      case True
      with lN show ?thesis by (cases "sk = BLACK"; cases sr) simp_all
    next
      case False
      with lN Node.IH(1) show ?thesis by (cases "find_swap l") auto
    qed
  qed simp_all
qed simp_all

lemma remove_empty_root_payload:
  "RBT_remove_empty_root (set_payload f t)
   = map_option (map_prod (set_payload f) (set_payload f)) (RBT_remove_empty_root t)"
proof (cases t)
  case (Node a l r n c p u k)
  note D = RBT_remove_empty_root_def Let_def
  show ?thesis
  proof (cases l)
    case BLACK_LEAF
    with Node show ?thesis by (cases r) (simp_all add: D)
  next
    case DOUBLE_BLACK_PTR
    with Node show ?thesis by (simp add: D)
  next
    case lN: (Node la ll lr ln lc lp lu lk)
    show ?thesis
    proof (cases "r = BLACK_LEAF")
      case True
      with Node lN show ?thesis by (simp add: D)
    next
      case rne: False
      show ?thesis
      proof (cases "ll = BLACK_LEAF \<and> lr = BLACK_LEAF")
        case True
        let ?x = "Node la (if lk = BLACK then DOUBLE_BLACK_PTR else BLACK_LEAF) r ln lc lp lu k"
        from propagate_payload[of f ?x] Node lN rne True show ?thesis
          by (cases "lk = BLACK"; cases "RBT_propagate_double_blackness ?x") (simp_all add: D)
      next
        case nleaf: False
        show ?thesis
        proof (cases r)
          case rN: (Node ra rl rr rn rc rp ru rk)
          show ?thesis
          proof (cases "rl = BLACK_LEAF")
            case True
            show ?thesis
            proof (cases "if rk = BLACK then blacken rr else Some rr")
              case None
              with Node lN rN True show ?thesis
                by (cases "rk = BLACK") (simp_all add: D nleaf)
            next
              case (Some x)
              let ?x = "Node ra l x rn rc rp ru k"
              from Some have "(if rk = BLACK then blacken (set_payload f rr)
                               else Some (set_payload f rr)) = Some (set_payload f x)"
                by (cases "rk = BLACK") auto
              with propagate_payload[of f ?x] Some Node lN rN True show ?thesis
                by (cases "RBT_propagate_double_blackness ?x") (simp_all add: D nleaf)
            qed
          next
            case False
            show ?thesis
            proof (cases "find_swap r")
              case None
              with find_swap_payload[of f r] Node lN rN False show ?thesis
                by (simp add: D nleaf)
            next
              case (Some res)
              obtain swap pv nr where res: "res = (swap, pv, nr)" by (cases res)
              show ?thesis
              proof (cases "RBT_propagate_double_blackness_prevswap pv nr")
                case None
                with find_swap_payload[of f r] prevswap_payload[of pv f nr] Some res
                  Node lN rN False
                show ?thesis by (simp add: D nleaf)
              next
                case fr: (Some fr)
                let ?x = "set_color k (set_right fr (set_left l swap))"
                from find_swap_payload[of f r] prevswap_payload[of pv f nr]
                  propagate_payload[of f ?x] Some res fr Node lN rN False
                show ?thesis
                  by (cases "RBT_propagate_double_blackness ?x") (simp_all add: D nleaf)
              qed
            qed
          qed
        qed (use Node lN rne in \<open>simp_all add: D nleaf\<close>)
      qed
    qed
  qed
qed (simp_all add: RBT_remove_empty_root_def)

lemma remove_root_payload:
  "RBT_remove_root (set_payload f (Node a l r n c p u k))
   = map_option (map_prod (set_payload f) (set_payload f)) (RBT_remove_root (Node a l r n c p u k))"
  using remove_empty_root_payload[of f "Node a l r n c p u k"]
  by (cases n) (simp_all add: RBT_remove_root_def)

lemma remove_at_least_inner_payload:
  "RBT_remove_at_least_inner (set_payload f t) cap
   = map_option (map_prod (set_payload f) (set_payload f)) (RBT_remove_at_least_inner t cap)"
proof (induction t)
  case (Node a l r n c p u k)
  note rr = remove_root_payload[of f a l r n c p u k, simplified]
  show ?case
  proof (cases "cap = ucast c")
    case True
    with rr show ?thesis by simp
  next
    case ne: False
    show ?thesis
    proof (cases "cap < ucast c")
      case True
      show ?thesis
      proof (cases "RBT_remove_at_least_inner l cap")
        case None
        with ne True Node.IH(1) show ?thesis by simp
      next
        case (Some res)
        obtain nl rm where res: "res = (nl, rm)" by (cases res)
        show ?thesis
        proof (cases "rm = BLACK_LEAF")
          case True
          with ne \<open>cap < ucast c\<close> Node.IH(1) Some res rr show ?thesis by simp
        next
          case False
          let ?x = "Node a nl r n c p u k"
          from ne True Node.IH(1) Some res False propagate_payload[of f ?x] show ?thesis
            by (cases "RBT_propagate_double_blackness ?x") simp_all
        qed
      qed
    next
      case False
      show ?thesis
      proof (cases "RBT_remove_at_least_inner r cap")
        case None
        with ne False Node.IH(2) show ?thesis by simp
      next
        case (Some res)
        obtain nr rm where res: "res = (nr, rm)" by (cases res)
        show ?thesis
        proof (cases "rm = BLACK_LEAF")
          case True
          with ne \<open>\<not> cap < ucast c\<close> Node.IH(2) Some res show ?thesis by simp
        next
          case nb: False
          let ?x = "Node a l nr n c p u k"
          from ne False Node.IH(2) Some res nb propagate_payload[of f ?x] show ?thesis
            by (cases "RBT_propagate_double_blackness ?x") simp_all
        qed
      qed
    qed
  qed
qed simp_all

lemma finish_root_payload [simp]:
  "finish_root (set_payload f t) = set_payload f (finish_root t)"
  by (simp add: finish_root_def)

lemma remove_from_list_payload:
  "remove_from_list (set_payload f t) node
   = map_option (map_prod (set_payload f) (set_payload f)) (remove_from_list t node)"
proof (induction t)
  case (Node a l r n c p u k)
  then show ?case by (cases "remove_from_list n node") auto
qed simp_all

lemma remove_node_root_payload:
  "RBT_remove_node_root (set_payload f (Node a l r n c p u k)) node
   = map_option (map_prod (set_payload f) (set_payload f))
       (RBT_remove_node_root (Node a l r n c p u k) node)"
proof (cases "node = a")
  case False
  with remove_from_list_payload[of f n node] show ?thesis
    by (cases "remove_from_list n node") (auto simp: RBT_remove_node_root_def)
next
  case True
  with remove_empty_root_payload[of f "Node a l r n c p u k"] show ?thesis
    by (cases n) (simp_all add: RBT_remove_node_root_def)
qed

lemma remove_node_inner_payload:
  "RBT_remove_node_inner (set_payload f t) node cap
   = map_option (map_prod (set_payload f) (set_payload f)) (RBT_remove_node_inner t node cap)"
proof (induction t)
  case (Node a l r n c p u k)
  note rr = remove_node_root_payload[of f a l r n c p u k node, simplified]
  show ?case
  proof (cases "cap = ucast c")
    case True
    with rr show ?thesis by simp
  next
    case ne: False
    show ?thesis
    proof (cases "cap < ucast c")
      case True
      show ?thesis
      proof (cases "RBT_remove_node_inner l node cap")
        case None
        with ne True Node.IH(1) show ?thesis by simp
      next
        case (Some res)
        obtain nl rm where res: "res = (nl, rm)" by (cases res)
        let ?x = "Node a nl r n c p u k"
        from ne True Node.IH(1) Some res propagate_payload[of f ?x] show ?thesis
          by (cases "RBT_propagate_double_blackness ?x") simp_all
      qed
    next
      case False
      show ?thesis
      proof (cases "RBT_remove_node_inner r node cap")
        case None
        with ne False Node.IH(2) show ?thesis by simp
      next
        case (Some res)
        obtain nr rm where res: "res = (nr, rm)" by (cases res)
        let ?x = "Node a l nr n c p u k"
        from ne False Node.IH(2) Some res propagate_payload[of f ?x] show ?thesis
          by (cases "RBT_propagate_double_blackness ?x") simp_all
      qed
    qed
  qed
qed simp_all

lemma remove_at_least_payload:
  "RBT_remove_at_least (set_payload f root) cap removed
   = map_option (map_prod (set_payload f) (map_option (set_payload f)))
       (RBT_remove_at_least root cap removed)"
proof (cases removed)
  case (Some x)
  with remove_at_least_inner_payload[of f root cap] show ?thesis
    by (cases "RBT_remove_at_least_inner root cap") (auto simp: RBT_remove_at_least_def)
qed (simp add: RBT_remove_at_least_def)

lemma remove_node_payload:
  "RBT_remove_node (set_payload f root) node removed
   = map_option (map_prod (set_payload f) (map_option (set_payload f)))
       (RBT_remove_node root node removed)"
proof (cases removed)
  case rs: (Some x)
  show ?thesis
  proof (cases node)
    case (Some nc)
    obtain a c where nc: "nc = (a, c)" by (cases nc)
    with rs Some remove_node_inner_payload[of f root a "ucast c"] show ?thesis
      by (cases "RBT_remove_node_inner root a (ucast c)") (auto simp: RBT_remove_node_def)
  qed (simp add: RBT_remove_node_def rs)
qed (simp add: RBT_remove_node_def)

section \<open>Removal of a given node\<close>









section \<open>Insertion followed by removal\<close>











section \<open>Insertions of one capacity\<close>

lemma skeleton_leaf [simp]:
  "(skeleton t = BLACK_LEAF) = (t = BLACK_LEAF)"
  "(skeleton t = DOUBLE_BLACK_PTR) = (t = DOUBLE_BLACK_PTR)"
  by (cases t; simp)+

lemma skeleton_tests [simp]:
  "red (skeleton t) = red t" "black (skeleton t) = black t"
  by (cases t; simp)+






lemma skeleton_set_color [simp]: "skeleton (set_color k t) = set_color k (skeleton t)"
  by (cases t) auto

lemma chained_set_color [simp]: "chained c (set_color k t) = chained c t"
  by (cases t) auto

















section \<open>Removal of a node with two children\<close>

lemma find_swap_leftmost:
  "find_swap t = Some (swap, pv, nt) \<Longrightarrow> swap = leftmost t"
proof (induction t arbitrary: swap pv nt rule: find_swap.induct)
  case (1 a l r n c p u k)
  from 1(2) obtain sa sl sr sn sc sp su sk where l: "l = Node sa sl sr sn sc sp su sk"
    by (cases l) auto
  show ?case
  proof (cases "sl = BLACK_LEAF")
    case True
    with 1(2) l show ?thesis by (auto split: bind_splits)
  next
    case False
    with 1(2) l obtain nl where f: "find_swap l = Some (swap, pv, nl)"
      by (auto split: bind_splits)
    from 1(1)[OF l False f] l show ?thesis by simp
  qed
qed auto

lemma remove_two_children:
  assumes g: "good (Node a l r n c p u k)" and d: "distinct (addrs (Node a l r n c p u k))"
    and lne: "l \<noteq> BLACK_LEAF" and rne: "r \<noteq> BLACK_LEAF"
  shows "\<exists>t' filled. RBT_remove_empty_root (Node a l r n c p u k)
              = Some (t', Node a BLACK_LEAF BLACK_LEAF n c p u k)
     \<and> RBT_propagate_double_blackness filled = Some t'
     \<and> fixed (Node a l r n c p u k) t'
     \<and> (if left l = BLACK_LEAF \<and> right l = BLACK_LEAF
        then filled = Node (addr l) (if color l = BLACK then DOUBLE_BLACK_PTR else BLACK_LEAF) r
                        (nxt l) (capacity l) (prev_dist l) (in_use l) k
        else \<exists>nr. filled = Node (addr (leftmost r)) l nr (nxt (leftmost r))
                              (capacity (leftmost r)) (prev_dist (leftmost r))
                              (in_use (leftmost r)) k
               \<and> fixed r nr
               \<and> in_order r = (addr (leftmost r), capacity (leftmost r))
                               # list_entries (nxt (leftmost r)) @ in_order nr)"
proof -
  from g lne obtain la ll lr ln lc lp lu lk where lN: "l = Node la ll lr ln lc lp lu lk"
    by (cases l) auto
  from g rne obtain ra rl rr rn rc rp ru rk where rN: "r = Node ra rl rr rn rc rp ru rk"
    by (cases r) auto
  show ?thesis
  proof (cases "ll = BLACK_LEAF \<and> lr = BLACK_LEAF")
    case True
    let ?x = "if lk = BLACK then DOUBLE_BLACK_PTR else BLACK_LEAF"
    have "fixed l ?x" using g lN True by (cases lk) (auto simp: fixed_def)
    from propagate_left[OF g this, of la ln lc lp lu] obtain t' where
      p: "RBT_propagate_double_blackness (Node la ?x r ln lc lp lu k) = Some t'"
      and f: "fixed (Node a l r n c p u k) t'" by blast
    have "RBT_remove_empty_root (Node a l r n c p u k)
          = Some (t', Node a BLACK_LEAF BLACK_LEAF n c p u k)"
      using p lN rN True by (auto simp: RBT_remove_empty_root_def)
    with p f lN True show ?thesis by auto
  next
    case nleaf: False
    show ?thesis
    proof (cases "rl = BLACK_LEAF")
      case True
      from g rN True have "good (Node ra BLACK_LEAF rr rn rc rp ru rk)" by simp
      from splice[OF this] obtain x where
        x: "(if rk = BLACK then blacken rr else Some rr) = Some x"
        and fx: "fixed r x" using rN True by auto
      from x have io: "in_order x = in_order rr"
        by (auto split: if_splits dest: blacken_in_order)
      from propagate_right[OF g fx, of ra rn rc rp ru] obtain t' where
        p: "RBT_propagate_double_blackness (Node ra l x rn rc rp ru k) = Some t'"
        and f: "fixed (Node a l r n c p u k) t'" by blast
      have e: "RBT_remove_empty_root (Node a l r n c p u k)
            = Some (t', Node a BLACK_LEAF BLACK_LEAF n c p u k)"
        using p lN rN True nleaf x by (auto simp: RBT_remove_empty_root_def)
      have "Node ra l x rn rc rp ru k
            = Node (addr (leftmost r)) l x (nxt (leftmost r)) (capacity (leftmost r))
                (prev_dist (leftmost r)) (in_use (leftmost r)) k
          \<and> fixed r x
          \<and> in_order r = (addr (leftmost r), capacity (leftmost r))
                          # list_entries (nxt (leftmost r)) @ in_order x"
        using rN True fx io by simp
      with e p f lN nleaf show ?thesis by auto
    next
      case False
      from g rN have gr: "good (Node ra rl rr rn rc rp ru rk)" by simp
      from d rN have dr: "distinct (addrs (Node ra rl rr rn rc rp ru rk))" by auto
      from find_swap_fix[OF gr dr False] obtain swap pv nt ft sa sl sr sn sc sp su sk where
        fs: "find_swap r = Some (swap, pv, nt)"
        and pp: "RBT_propagate_double_blackness_prevswap pv nt = Some ft"
        and fx: "fixed r ft" and sw: "swap = Node sa sl sr sn sc sp su sk"
        unfolding rN by blast
      from find_swap_leftmost[OF fs] have lm: "leftmost r = swap" by simp
      from find_swap_in_order[OF fs] prevswap_in_order[OF pp]
      have io: "in_order r = (addr swap, capacity swap) # list_entries (nxt swap) @ in_order ft"
        by simp
      from propagate_right[OF g fx, of sa sn sc sp su] obtain t' where
        p: "RBT_propagate_double_blackness (Node sa l ft sn sc sp su k) = Some t'"
        and f: "fixed (Node a l r n c p u k) t'" by blast
      have e: "RBT_remove_empty_root (Node a l r n c p u k)
            = Some (t', Node a BLACK_LEAF BLACK_LEAF n c p u k)"
        using p lN rN False nleaf fs pp sw by (auto simp: RBT_remove_empty_root_def)
      have "Node sa l ft sn sc sp su k
            = Node (addr (leftmost r)) l ft (nxt (leftmost r)) (capacity (leftmost r))
                (prev_dist (leftmost r)) (in_use (leftmost r)) k
          \<and> fixed r ft
          \<and> in_order r = (addr (leftmost r), capacity (leftmost r))
                          # list_entries (nxt (leftmost r)) @ in_order ft"
        using lm sw fx io by simp
      with e p f lN nleaf show ?thesis by auto
    qed
  qed
qed

lemma add_all_triple_tree: "add_all BLACK_LEAF [(1, 2), (2, 1), (3, 3)] = Some triple_tree"
  by (simp add: triple_tree_def add_defs)

lemma remove_triple_tree:
  "RBT_remove_at_least triple_tree 2 (Some BLACK_LEAF)
   = Some (Node 2 BLACK_LEAF (Node 3 BLACK_LEAF BLACK_LEAF BLACK_LEAF 3 0 False RED) BLACK_LEAF
             1 0 False BLACK,
           Some (Node 1 BLACK_LEAF BLACK_LEAF BLACK_LEAF 2 0 False BLACK))"
  by (simp add: triple_tree_def remove_defs)

lemma remove_algorithm_root:
  "RBT_remove_empty_root algorithm_tree
   = Some (Node 2
       (Node 3 (Node 1 BLACK_LEAF BLACK_LEAF BLACK_LEAF 65 0 False BLACK)
               (Node 8 BLACK_LEAF BLACK_LEAF BLACK_LEAF 72 0 False BLACK)
               BLACK_LEAF 71 0 False RED)
       (Node 4 (Node 9 BLACK_LEAF BLACK_LEAF BLACK_LEAF 77 0 False BLACK)
               (Node 5 BLACK_LEAF
                  (Node 7 BLACK_LEAF BLACK_LEAF BLACK_LEAF 84 0 False RED)
                  BLACK_LEAF 82 0 False BLACK)
               BLACK_LEAF 79 0 False RED)
       BLACK_LEAF 76 0 False BLACK,
     Node 6 BLACK_LEAF BLACK_LEAF BLACK_LEAF 73 0 False BLACK)"
  by (simp add: algorithm_tree_def remove_defs)

lemma remove_triple_root:
  "RBT_remove_empty_root triple_tree
   = Some (Node 2 BLACK_LEAF (Node 3 BLACK_LEAF BLACK_LEAF BLACK_LEAF 3 0 False RED) BLACK_LEAF
             1 0 False BLACK,
           Node 1 BLACK_LEAF BLACK_LEAF BLACK_LEAF 2 0 False BLACK)"
  by (simp add: triple_tree_def remove_defs)

section \<open>Claims\<close>

text \<open>
  C7 (as stated): after inserting \<open>A, L, G, O, R, I, T, H, M\<close> the left subtree of the
  root \<open>I\<close> is rooted at a BLACK node \<open>G\<close>. The node \<open>G\<close> (capacity 71) is RED.
\<close>

theorem algorithm_left_child_not_black:
  "add_all BLACK_LEAF algorithm_keys = Some algorithm_tree
   \<and> capacity (left algorithm_tree) = 71 \<and> color (left algorithm_tree) \<noteq> BLACK"
  by (simp add: add_all_algorithm) (simp add: algorithm_tree_def)

text \<open>
  C7 (amended): inserting the character codes of \<open>A, L, G, O, R, I, T, H, M\<close> in that order
  into an empty tree yields a tree of height 3 and black height 2 with root \<open>I\<close>, whose left
  subtree is rooted at a RED node \<open>G\<close> with children BLACK \<open>A\<close> and BLACK \<open>H\<close>, and whose
  right subtree is rooted at a RED node \<open>O\<close> with children BLACK \<open>L\<close> (with RED right child
  \<open>M\<close>) and BLACK \<open>R\<close> (with RED right child \<open>T\<close>).
\<close>

theorem algorithm_insertion:
  "add_all BLACK_LEAF algorithm_keys = Some algorithm_tree
   \<and> RBT_height algorithm_tree = Some 3 \<and> RBT_black_height algorithm_tree = Some 2
   \<and> capacity algorithm_tree = 73 \<and> color algorithm_tree = BLACK
   \<and> capacity (left algorithm_tree) = 71 \<and> color (left algorithm_tree) = RED
   \<and> capacity (left (left algorithm_tree)) = 65 \<and> color (left (left algorithm_tree)) = BLACK
   \<and> capacity (right (left algorithm_tree)) = 72 \<and> color (right (left algorithm_tree)) = BLACK
   \<and> capacity (right algorithm_tree) = 79 \<and> color (right algorithm_tree) = RED
   \<and> capacity (left (right algorithm_tree)) = 76 \<and> color (left (right algorithm_tree)) = BLACK
   \<and> capacity (right (left (right algorithm_tree))) = 77
   \<and> color (right (left (right algorithm_tree))) = RED
   \<and> capacity (right (right algorithm_tree)) = 82 \<and> color (right (right algorithm_tree)) = BLACK
   \<and> capacity (right (right (right algorithm_tree))) = 84
   \<and> color (right (right (right algorithm_tree))) = RED"
  by (simp add: add_all_algorithm) (simp add: algorithm_tree_def)

text \<open>
  C10 (as stated): \<open>RBT_black_height\<close> counts neither the initial node nor the leaf, and
  returns 0 for a tree that is a single BLACK node. It returns 1 there.
\<close>

theorem black_height_single_node_not_zero:
  "RBT_rep_ok (Node 1 BLACK_LEAF BLACK_LEAF BLACK_LEAF 5 0 False BLACK)
   \<and> RBT_black_height (Node 1 BLACK_LEAF BLACK_LEAF BLACK_LEAF 5 0 False BLACK) \<noteq> Some 0"
  by (simp add: RBT_rep_ok_def)

text \<open>
  C10 (amended): for every tree that passes the representation check, \<open>RBT_black_height\<close>
  returns the number of BLACK nodes on any path from the root down to a descendant leaf,
  not counting the initial node but counting the leaf, as rbt.h says; it is 1 for a single
  node and 0 for the empty tree.
\<close>

theorem black_height_counts:
  assumes "RBT_rep_ok root"
  shows "black_below root \<noteq> []
         \<and> (\<forall>m \<in> set (black_below root). RBT_black_height root = Some (int m))"
proof (cases root)
  case (Node a l r n c p u k)
  with assms have db: "RBT_double_blackness_ok root" and "RBT_black_height_ok root"
    by (auto simp: RBT_rep_ok_def)
  then have bal: "balanced root" by (simp add: black_height_ok_balanced)
  with Node have "\<forall>m \<in> set (black_below root). m = wbh l"
    by (auto simp: black_below_def dest: paths_wbh)
  then show ?thesis using black_height_wbh[OF db] Node paths_nonempty[of l]
    by (simp add: black_below_def)
qed (use assms in \<open>auto simp: black_below_def RBT_rep_ok_def\<close>)

theorem black_height_counts_witness:
  "RBT_rep_ok algorithm_tree \<and> black_below algorithm_tree \<noteq> []
   \<and> set (black_below algorithm_tree) = {2}
   \<and> RBT_black_height algorithm_tree = Some 2"
  using black_height_counts[OF rep_ok_algorithm]
  by (simp add: rep_ok_algorithm) (simp add: algorithm_tree_def black_below_def)

text \<open>
  C1: for every finite sequence of \<open>RBT_add\<close>, \<open>RBT_remove_at_least\<close> and
  \<open>RBT_remove_node\<close> operations starting from the empty tree (\<open>RBT_add\<close> being given
  storage that is not in the tree), every operation returns, and the root it returns passes
  \<open>RBT_rep_ok\<close>: if the tree is not empty its root is BLACK, no node is DOUBLE_BLACK and no
  child pointer is the double-black sentinel, no RED node has a RED child, and every path
  from the root to a leaf has the same number of BLACK nodes.
\<close>

theorem invariant_closure:
  assumes "reachable t"
  shows "RBT_rep_ok t \<and> root_black t \<and> RBT_double_blackness_ok t \<and> no_red_red t
         \<and> equal_black_paths t
         \<and> (\<forall>node cap. RBT_add t node cap \<noteq> None)
         \<and> (\<forall>cap removed. RBT_remove_at_least t cap removed \<noteq> None)
         \<and> (\<forall>node removed. RBT_remove_node t node removed \<noteq> None)"
proof -
  from reachable_sound[OF assms] have s: "sound t" .
  then have r: "RBT_rep_ok t" by (simp add: sound_def)
  then have "root_black t" "good t" by (auto simp: rep_ok_iff)
  moreover have "\<And>node cap. RBT_add t node cap \<noteq> None"
    using add_rep_ok[OF r] by (metis option.distinct(1))
  moreover have "\<And>cap removed. RBT_remove_at_least t cap removed \<noteq> None"
    using remove_at_least_sound[OF s] by (metis option.distinct(1))
  moreover have "\<And>node removed. RBT_remove_node t node removed \<noteq> None"
    using remove_node_sound[OF s] by (metis option.distinct(1))
  ultimately show ?thesis using r balanced_equal_paths[of t] by (auto simp: good_def)
qed

theorem invariant_closure_witness:
  "reachable small_tree \<and> RBT_rep_ok small_tree \<and> root_black small_tree
   \<and> RBT_double_blackness_ok small_tree \<and> no_red_red small_tree
   \<and> equal_black_paths small_tree
   \<and> RBT_add small_tree (Some 7) 9 \<noteq> None
   \<and> RBT_remove_at_least small_tree 1 (Some BLACK_LEAF) \<noteq> None
   \<and> RBT_remove_node small_tree (Some (2, 3)) (Some BLACK_LEAF) \<noteq> None"
  using invariant_closure[OF reachable_small_tree] by (simp add: reachable_small_tree)

text \<open>
  C9 (as stated): removal and rebalancing read only the fields \<open>left\<close>, \<open>right\<close>, \<open>next\<close>
  and \<open>color\<close>. They read \<open>capacity\<close> as well: of two trees that differ in the capacity of
  their one node only, a request for 3 removes the node from the first and nothing from the
  second.
\<close>

theorem removal_reads_capacity:
  "RBT_remove_at_least (Node 1 BLACK_LEAF BLACK_LEAF BLACK_LEAF 5 0 False BLACK) 3
       (Some BLACK_LEAF)
     = Some (BLACK_LEAF, Some (Node 1 BLACK_LEAF BLACK_LEAF BLACK_LEAF 5 0 False BLACK))
   \<and> RBT_remove_at_least (Node 1 BLACK_LEAF BLACK_LEAF BLACK_LEAF 1 0 False BLACK) 3
       (Some BLACK_LEAF)
     = Some (Node 1 BLACK_LEAF BLACK_LEAF BLACK_LEAF 1 0 False BLACK, Some BLACK_LEAF)"
  by (simp add: remove_defs)

text \<open>
  C9 (amended): for both removals, the fields \<open>prev_dist\<close> and \<open>in_use\<close> are neither read
  nor written. Not read: on a heap whose structs hold other values in these two fields, the
  call returns if and only if it returns on the given heap, and then with the same returned
  root and the same pointer in \<open>*removed\<close>, over the other heap. Not written: the header of
  every node in the returned tree, and of the removed node, is a header of the tree before
  the call, with the same \<open>capacity\<close>, \<open>prev_dist\<close> and \<open>in_use\<close> at the same address.
  Removal and rebalancing write the fields \<open>left\<close>, \<open>right\<close>, \<open>next\<close> and \<open>color\<close> only, and
  read those and \<open>capacity\<close>.
\<close>

theorem removal_keeps_payload:
  "RBT_remove_at_least (set_payload f root) cap removed
     = map_option (map_prod (set_payload f) (map_option (set_payload f)))
         (RBT_remove_at_least root cap removed)
   \<and> RBT_remove_node (set_payload f root) node removed
     = map_option (map_prod (set_payload f) (map_option (set_payload f)))
         (RBT_remove_node root node removed)
   \<and> (\<forall>t' r. RBT_remove_at_least root cap removed = Some (t', r)
              \<or> RBT_remove_node root node removed = Some (t', r)
         \<longrightarrow> set (headers t') \<union> (case r of None \<Rightarrow> {} | Some rem \<Rightarrow> set (headers rem))
             \<subseteq> set (headers root))"
proof -
  have frame: "set (headers t') \<union> (case r of None \<Rightarrow> {} | Some rem \<Rightarrow> set (headers rem))
               \<subseteq> set (headers root)"
    if op: "RBT_remove_at_least root cap removed = Some (t', r)
            \<or> RBT_remove_node root node removed = Some (t', r)" for t' r
  proof (cases r)
    case None
    with op have "t' = root"
      by (auto simp: RBT_remove_at_least_def RBT_remove_node_def
               split: option.splits bind_splits prod.splits)
    with None show ?thesis by simp
  next
    case (Some rem)
    have "mset (headers t') + mset (headers rem) \<subseteq># mset (headers root)"
      using op unfolding Some
    proof
      assume "RBT_remove_at_least root cap removed = Some (t', Some rem)"
      then obtain ti where "RBT_remove_at_least_inner root cap = Some (ti, rem)"
        and "t' = finish_root ti"
        by (auto simp: RBT_remove_at_least_def split: option.splits bind_splits)
      with remove_at_least_inner_content[OF this(1)] show ?thesis by simp
    next
      assume rn: "RBT_remove_node root node removed = Some (t', Some rem)"
      show ?thesis
      proof (cases node)
        case None
        with rn show ?thesis by (auto simp: RBT_remove_node_def split: option.splits)
      next
        case nd: (Some nc)
        obtain a c where "nc = (a, c)" by (cases nc)
        with rn nd obtain ti where "RBT_remove_node_inner root a (ucast c) = Some (ti, rem)"
          and "t' = finish_root ti"
          by (auto simp: RBT_remove_node_def split: option.splits bind_splits)
        with remove_node_inner_content[OF this(1)] show ?thesis by simp
      qed
    qed
    from set_mset_mono[OF this] Some show ?thesis by simp
  qed
  from remove_at_least_payload[of f root cap removed] remove_node_payload[of f root node removed]
    frame
  show ?thesis by blast
qed

theorem removal_keeps_payload_witness:
  "RBT_remove_at_least (set_payload (\<lambda>a. (0, False)) payload_tree) 2 (Some BLACK_LEAF)
   = Some (Node 2 BLACK_LEAF
             (Node 3 BLACK_LEAF BLACK_LEAF
                (Node 4 BLACK_LEAF BLACK_LEAF BLACK_LEAF 3 0 False BLACK) 3 0 False RED)
             BLACK_LEAF 1 0 False BLACK,
           Some (Node 1 BLACK_LEAF BLACK_LEAF BLACK_LEAF 2 0 False BLACK))
   \<and> RBT_remove_node (set_payload (\<lambda>a. (0, False)) payload_tree) (Some (4, 3)) (Some BLACK_LEAF)
   = Some (Node 1 (Node 2 BLACK_LEAF BLACK_LEAF BLACK_LEAF 1 0 False RED)
             (Node 3 BLACK_LEAF BLACK_LEAF BLACK_LEAF 3 0 False RED) BLACK_LEAF 2 0 False BLACK,
           Some (Node 4 BLACK_LEAF BLACK_LEAF BLACK_LEAF 3 0 False BLACK))
   \<and> RBT_remove_at_least payload_tree 2 (Some BLACK_LEAF)
   = Some (Node 2 BLACK_LEAF
             (Node 3 BLACK_LEAF BLACK_LEAF
                (Node 4 BLACK_LEAF BLACK_LEAF BLACK_LEAF 3 8 True BLACK) 3 9 False RED)
             BLACK_LEAF 1 7 True BLACK,
           Some (Node 1 BLACK_LEAF BLACK_LEAF BLACK_LEAF 2 5 True BLACK))
   \<and> set (headers (Node 2 BLACK_LEAF
             (Node 3 BLACK_LEAF BLACK_LEAF
                (Node 4 BLACK_LEAF BLACK_LEAF BLACK_LEAF 3 8 True BLACK) 3 9 False RED)
             BLACK_LEAF 1 7 True BLACK))
       \<union> set (headers (Node 1 BLACK_LEAF BLACK_LEAF BLACK_LEAF 2 5 True BLACK))
     \<subseteq> set (headers payload_tree)"
  using removal_keeps_payload[of "\<lambda>a. (0, False)" payload_tree 2 "Some BLACK_LEAF" "Some (4, 3)"]
    remove_payload_tree remove_node_payload_tree
  by (simp add: payload_tree_def)

text \<open>
  C8: whenever \<open>RBT_remove_at_least\<close> or \<open>RBT_remove_node\<close> stores a node in
  \<open>*removed\<close>, the pointers \<open>left\<close>, \<open>right\<close> and \<open>next\<close> of that node are null, and the
  node is neither the returned root nor anywhere else in the returned tree. The tree is one
  whose lists hold nodes without children and in which no struct occurs twice, as is every
  tree that the operations build (lemma \<open>reachable_sound\<close>).
\<close>

theorem removed_is_detached:
  assumes "buckets root" and "distinct (addrs root)"
    and "RBT_remove_at_least root cap removed = Some (t', Some rem)
         \<or> RBT_remove_node root node removed = Some (t', Some rem)"
    and "rem \<noteq> BLACK_LEAF"
  shows "detached rem \<and> addr rem \<notin> set (addrs t')
         \<and> (t' = BLACK_LEAF \<or> t' \<noteq> DOUBLE_BLACK_PTR \<and> addr t' \<noteq> addr rem)"
proof -
  note b = assms(1) and d = assms(2)
  have "\<exists>ti. t' = finish_root ti \<and> detached rem
          \<and> mset (headers ti) + mset (headers rem) = mset (headers root)"
    using assms(3)
  proof
    assume "RBT_remove_at_least root cap removed = Some (t', Some rem)"
    then obtain ti where i: "RBT_remove_at_least_inner root cap = Some (ti, rem)"
      and "t' = finish_root ti"
      by (auto simp: RBT_remove_at_least_def split: option.splits bind_splits)
    with remove_at_least_inner_content[OF i] b assms(4) show ?thesis by auto
  next
    assume rn: "RBT_remove_node root node removed = Some (t', Some rem)"
    with assms(4) obtain nc where Some: "node = Some nc"
      by (cases node) (auto simp: RBT_remove_node_def split: option.splits)
    obtain a c where "nc = (a, c)" by (cases nc)
    with rn Some obtain ti where i: "RBT_remove_node_inner root a (ucast c) = Some (ti, rem)"
      and "t' = finish_root ti"
      by (auto simp: RBT_remove_node_def split: option.splits bind_splits)
    with remove_node_inner_content[OF i] b assms(4) show ?thesis by auto
  qed
  then obtain ti where t': "t' = finish_root ti" and dt: "detached rem"
    and h: "mset (headers ti) + mset (headers rem) = mset (headers root)" by blast
  from headers_split_addrs[OF h d] detached_addrs[OF dt] t'
  have na: "addr rem \<notin> set (addrs t')" by (auto simp: addrs_def)
  have "t' = BLACK_LEAF \<or> t' \<noteq> DOUBLE_BLACK_PTR \<and> addr t' \<noteq> addr rem"
  proof (cases t')
    case (Node a l r n c p u k)
    with na show ?thesis by auto
  qed (simp_all add: t')
  with dt na show ?thesis by simp
qed

theorem removed_is_detached_witness:
  "buckets payload_tree \<and> distinct (addrs payload_tree)
   \<and> RBT_remove_at_least payload_tree 2 (Some BLACK_LEAF)
   = Some (Node 2 BLACK_LEAF
             (Node 3 BLACK_LEAF BLACK_LEAF
                (Node 4 BLACK_LEAF BLACK_LEAF BLACK_LEAF 3 8 True BLACK) 3 9 False RED)
             BLACK_LEAF 1 7 True BLACK,
           Some (Node 1 BLACK_LEAF BLACK_LEAF BLACK_LEAF 2 5 True BLACK))
   \<and> detached (Node 1 BLACK_LEAF BLACK_LEAF BLACK_LEAF 2 5 True BLACK)
   \<and> RBT_remove_node payload_tree (Some (4, 3)) (Some BLACK_LEAF)
   = Some (Node 1 (Node 2 BLACK_LEAF BLACK_LEAF BLACK_LEAF 1 7 True RED)
             (Node 3 BLACK_LEAF BLACK_LEAF BLACK_LEAF 3 9 False RED) BLACK_LEAF 2 5 True BLACK,
           Some (Node 4 BLACK_LEAF BLACK_LEAF BLACK_LEAF 3 8 True BLACK))
   \<and> detached (Node 4 BLACK_LEAF BLACK_LEAF BLACK_LEAF 3 8 True BLACK)
   \<and> 4 \<notin> set (addrs (Node 1 (Node 2 BLACK_LEAF BLACK_LEAF BLACK_LEAF 1 7 True RED)
             (Node 3 BLACK_LEAF BLACK_LEAF BLACK_LEAF 3 9 False RED) BLACK_LEAF 2 5 True BLACK))"
  using removed_is_detached[of payload_tree 2 "Some BLACK_LEAF" _ _ "Some (4, 3)",
      OF _ _ disjI1[OF remove_payload_tree]]
    removed_is_detached[of payload_tree 2 "Some BLACK_LEAF" _ _ "Some (4, 3)",
      OF _ _ disjI2[OF remove_node_payload_tree]]
    well_formed_payload_tree remove_payload_tree remove_node_payload_tree
  by (simp add: well_formed_def)













text \<open>
  C6 (as stated): the position of a removed tree node with two children is filled by its
  in-order successor. In the tree that the insertions of the capacities 2, 1 and 3 build,
  the root has the two children of capacity 1 and 3; the removal of the root puts its left
  child, of capacity 1, in its place, and the successor, of capacity 3, stays the right
  child.
\<close>

theorem removal_fills_with_left_child:
  "add_all BLACK_LEAF [(1, 2), (2, 1), (3, 3)] = Some triple_tree
   \<and> addr (left triple_tree) = 2 \<and> addr (leftmost (right triple_tree)) = 3
   \<and> RBT_remove_at_least triple_tree 2 (Some BLACK_LEAF)
     = Some (Node 2 BLACK_LEAF (Node 3 BLACK_LEAF BLACK_LEAF BLACK_LEAF 3 0 False RED) BLACK_LEAF
               1 0 False BLACK,
             Some (Node 1 BLACK_LEAF BLACK_LEAF BLACK_LEAF 2 0 False BLACK))"
  using add_all_triple_tree remove_triple_tree by (simp add: triple_tree_def)

text \<open>
  C6 (amended): both removals remove a tree node with an empty list through
  \<open>RBT_remove_empty_root\<close>. When the node has two children, in a valid subtree without
  repeated structs, the call returns and stores the node, detached. The position of the node
  is filled by its left child when that child has no children; otherwise by its in-order
  successor, the leftmost node of its right subtree. The node \<open>filled\<close> that fills the
  position takes the colour of the removed node. A left child takes the right subtree as it
  is, and a double-black sentinel as left child if it was BLACK. A successor takes the left
  subtree as it is and the right subtree \<open>nr\<close> without the successor: \<open>nr\<close> holds the other
  nodes of the right subtree in their order and is \<open>fixed\<close>, that is balanced at the weighted
  black height of the old right subtree, with no double-black mark below its root, the
  deficiency having been propagated up from the place of the successor. The result is
  \<open>RBT_propagate_double_blackness\<close> of \<open>filled\<close>, and is \<open>fixed\<close> in the same sense.
\<close>

theorem two_children_removal:
  assumes "good (Node a l r BLACK_LEAF c p u k)"
    and "distinct (addrs (Node a l r BLACK_LEAF c p u k))"
    and "l \<noteq> BLACK_LEAF" and "r \<noteq> BLACK_LEAF"
  shows "RBT_remove_root (Node a l r BLACK_LEAF c p u k)
         = RBT_remove_empty_root (Node a l r BLACK_LEAF c p u k)
     \<and> RBT_remove_node_root (Node a l r BLACK_LEAF c p u k) a
         = RBT_remove_empty_root (Node a l r BLACK_LEAF c p u k)
     \<and> (\<exists>t' filled. RBT_remove_empty_root (Node a l r BLACK_LEAF c p u k)
              = Some (t', Node a BLACK_LEAF BLACK_LEAF BLACK_LEAF c p u k)
         \<and> RBT_propagate_double_blackness filled = Some t'
         \<and> fixed (Node a l r BLACK_LEAF c p u k) t'
         \<and> (if left l = BLACK_LEAF \<and> right l = BLACK_LEAF
            then filled = Node (addr l) (if color l = BLACK then DOUBLE_BLACK_PTR else BLACK_LEAF)
                            r (nxt l) (capacity l) (prev_dist l) (in_use l) k
            else \<exists>nr. filled = Node (addr (leftmost r)) l nr (nxt (leftmost r))
                                  (capacity (leftmost r)) (prev_dist (leftmost r))
                                  (in_use (leftmost r)) k
                   \<and> fixed r nr
                   \<and> in_order r = (addr (leftmost r), capacity (leftmost r))
                                   # list_entries (nxt (leftmost r)) @ in_order nr))"
proof -
  have "RBT_remove_root (Node a l r BLACK_LEAF c p u k)
        = RBT_remove_empty_root (Node a l r BLACK_LEAF c p u k)"
    by (simp add: RBT_remove_root_def)
  moreover have "RBT_remove_node_root (Node a l r BLACK_LEAF c p u k) a
        = RBT_remove_empty_root (Node a l r BLACK_LEAF c p u k)"
    by (simp add: RBT_remove_node_root_def)
  ultimately show ?thesis using remove_two_children[OF assms] by blast
qed

theorem two_children_removal_witness:
  "good algorithm_tree \<and> distinct (addrs algorithm_tree)
   \<and> left (left algorithm_tree) \<noteq> BLACK_LEAF
   \<and> addr (leftmost (right algorithm_tree)) = 2
   \<and> RBT_remove_empty_root algorithm_tree
     = Some (Node 2
         (Node 3 (Node 1 BLACK_LEAF BLACK_LEAF BLACK_LEAF 65 0 False BLACK)
                 (Node 8 BLACK_LEAF BLACK_LEAF BLACK_LEAF 72 0 False BLACK)
                 BLACK_LEAF 71 0 False RED)
         (Node 4 (Node 9 BLACK_LEAF BLACK_LEAF BLACK_LEAF 77 0 False BLACK)
                 (Node 5 BLACK_LEAF
                    (Node 7 BLACK_LEAF BLACK_LEAF BLACK_LEAF 84 0 False RED)
                    BLACK_LEAF 82 0 False BLACK)
                 BLACK_LEAF 79 0 False RED)
         BLACK_LEAF 76 0 False BLACK,
       Node 6 BLACK_LEAF BLACK_LEAF BLACK_LEAF 73 0 False BLACK)
   \<and> good triple_tree \<and> distinct (addrs triple_tree)
   \<and> left (left triple_tree) = BLACK_LEAF \<and> right (left triple_tree) = BLACK_LEAF
   \<and> addr (left triple_tree) = 2
   \<and> RBT_remove_empty_root triple_tree
     = Some (Node 2 BLACK_LEAF (Node 3 BLACK_LEAF BLACK_LEAF BLACK_LEAF 3 0 False RED) BLACK_LEAF
               1 0 False BLACK,
             Node 1 BLACK_LEAF BLACK_LEAF BLACK_LEAF 2 0 False BLACK)"
proof -
  have g: "good algorithm_tree" using rep_ok_algorithm by (simp add: rep_ok_iff)
  have d: "distinct (addrs algorithm_tree)" by (simp add: algorithm_tree_def)
  have g3: "good triple_tree" and d3: "distinct (addrs triple_tree)"
    by (simp_all add: triple_tree_def)
  from two_children_removal[OF g[unfolded algorithm_tree_def] d[unfolded algorithm_tree_def]]
    two_children_removal[OF g3[unfolded triple_tree_def] d3[unfolded triple_tree_def]]
    g d remove_algorithm_root g3 d3 remove_triple_root
  show ?thesis by (simp add: algorithm_tree_def triple_tree_def)
qed

end
